theory Spec2Isabelle
  imports Main
begin

section \<open>Strings and numbers of the host language\<close>

text \<open>
  The program is TypeScript. Its strings are modelled as \<open>string\<close> (code units below 256),
  its numbers as \<open>int\<close>: every number the timestamp code computes is an integer, and
  JavaScript's doubles agree with unbounded integers while all values stay at or below
  \<open>2^53 - 1\<close>. A number that is \<open>NaN\<close> is \<open>None\<close>.
\<close>

type_synonym jsnum = "int option"

definition is_digit :: "char \<Rightarrow> bool" where
  \<comment> \<open>the regular expression class \<open>\d\<close>: the ASCII digits\<close>
  "is_digit c = (48 \<le> (of_char c :: nat) \<and> (of_char c :: nat) \<le> 57)"

definition is_space :: "char \<Rightarrow> bool" where
  \<comment> \<open>the regular expression class \<open>\s\<close> on code units below 256:
      tab, line feed, vertical tab, form feed, carriage return, space, no-break space\<close>
  "is_space c = ((of_char c :: nat) \<in> {9, 10, 11, 12, 13, 32, 160})"

definition digit_val :: "char \<Rightarrow> int" where
  "digit_val c = int (of_char c) - 48"

definition digit_char :: "nat \<Rightarrow> char" where
  "digit_char d = char_of (48 + d)"

definition dec :: "string \<Rightarrow> int" where
  \<comment> \<open>the value of a string of decimal digits\<close>
  "dec s = foldl (\<lambda>a c. 10 * a + digit_val c) 0 s"

definition js_Number :: "string \<Rightarrow> jsnum" where
  \<comment> \<open>\<open>Number(s)\<close> on the strings the recogniser lets through: the empty string is 0, a
      string of digits is its decimal value. Every other string is \<open>None\<close>: the other
      numeric forms of the language (sign, fraction, exponent, hexadecimal, surrounding
      white space) are not modelled and count as \<open>NaN\<close>.\<close>
  "js_Number s = (if s = [] then Some 0 else if list_all is_digit s then Some (dec s) else None)"

definition num_add :: "jsnum \<Rightarrow> jsnum \<Rightarrow> jsnum" where
  "num_add a b = (case a of None \<Rightarrow> None | Some x \<Rightarrow> (case b of None \<Rightarrow> None | Some y \<Rightarrow> Some (x + y)))"

definition num_mul :: "jsnum \<Rightarrow> jsnum \<Rightarrow> jsnum" where
  "num_mul a b = (case a of None \<Rightarrow> None | Some x \<Rightarrow> (case b of None \<Rightarrow> None | Some y \<Rightarrow> Some (x * y)))"

fun split_colon :: "string \<Rightarrow> string list" where
  \<comment> \<open>\<open>s.split(':')\<close>: the pieces between the colons, at least one piece\<close>
  "split_colon [] = [[]]"
| "split_colon (c # cs) =
     (if c = CHR '':'' then [] # split_colon cs
      else (c # hd (split_colon cs)) # tl (split_colon cs))"

definition part :: "jsnum list \<Rightarrow> nat \<Rightarrow> jsnum" where
  \<comment> \<open>\<open>parts[i]\<close> inside arithmetic: an index past the end reads \<open>undefined\<close>, which
      arithmetic turns into \<open>NaN\<close>\<close>
  "part parts i = (if i < length parts then parts ! i else None)"

fun showNat :: "nat \<Rightarrow> string" where
  "showNat n = (if n < 10 then [digit_char n] else showNat (n div 10) @ [digit_char (n mod 10)])"

declare showNat.simps [simp del]




section \<open>Timestamps: formatTimestamp and parseTimestamp\<close>



definition parseTimestamp :: "string \<Rightarrow> jsnum" where
  "parseTimestamp timestamp =
     (let parts = map js_Number (split_colon timestamp)
      in if length parts = 3
         then num_add (num_add (num_mul (part parts 0) (Some 3600)) (num_mul (part parts 1) (Some 60)))
                (part parts 2)
         else num_add (num_mul (part parts 0) (Some 60)) (part parts 1))"

text \<open>
  The grammar of a timestamp literal, in the words of the specification: \<open>m+:ss\<close> or
  \<open>h+:mm:ss\<close>, digits only, the seconds exactly two digits, hours and minutes one digit
  or more.
\<close>

definition digits1 :: "string \<Rightarrow> bool" where
  "digits1 s = (s \<noteq> [] \<and> list_all is_digit s)"

definition timestamp_grammar :: "string \<Rightarrow> bool" where
  "timestamp_grammar s =
     (case split_colon s of
        [m, ss] \<Rightarrow> digits1 m \<and> list_all is_digit ss \<and> length ss = 2
      | [h, m, ss] \<Rightarrow> digits1 h \<and> digits1 m \<and> list_all is_digit ss \<and> length ss = 2
      | _ \<Rightarrow> False)"

section \<open>The timestamp recogniser\<close>

text \<open>
  The pattern of the source is
  \<^verbatim>\<open>/(?:\*\*)?((?:\d+:)?\d+:\d{2})(?:\*\*)?(?=\s)/g\<close>.
  Regular expressions are modelled by their syntax and a backtracking matcher that returns
  the list of all ways to match, in the order in which the engine tries them: a greedy
  quantifier first takes as much as it can. The engine's answer is the head of the list.
  A state of the matcher is the text still to read and the capture of group 1.
\<close>

datatype cclass = Lit char | Digit | Space

datatype regex =
    Atom cclass
  | Seq regex regex
  | Opt regex
  | Plus cclass
  | Group regex
  | Ahead regex

type_synonym mstate = "string \<times> string option"

fun in_class :: "cclass \<Rightarrow> char \<Rightarrow> bool" where
  "in_class (Lit x) c = (c = x)"
| "in_class Digit c = is_digit c"
| "in_class Space c = is_space c"

fun plus_matches :: "cclass \<Rightarrow> string \<Rightarrow> string list" where
  "plus_matches k [] = []"
| "plus_matches k (c # cs) = (if in_class k c then plus_matches k cs @ [cs] else [])"

fun rmatch :: "regex \<Rightarrow> mstate \<Rightarrow> mstate list" where
  "rmatch (Atom k) (s, g) = (case s of [] \<Rightarrow> [] | c # cs \<Rightarrow> if in_class k c then [(cs, g)] else [])"
| "rmatch (Seq a b) st = concat (map (rmatch b) (rmatch a st))"
| "rmatch (Opt a) st = rmatch a st @ [st]"
| "rmatch (Plus k) (s, g) = map (\<lambda>r. (r, g)) (plus_matches k s)"
| "rmatch (Group a) (s, g) = map (\<lambda>(r, _). (r, Some (take (length s - length r) s))) (rmatch a (s, g))"
| "rmatch (Ahead a) st = (if rmatch a st = [] then [] else [st])"

text \<open>\<open>(?:\*\*)\<close>, and the pattern as written in the source.\<close>

definition bold :: regex where
  "bold = Seq (Atom (Lit (CHR ''*''))) (Atom (Lit (CHR ''*'')))"

definition ALL_TIMESTAMPS_PATTERN :: regex where
  "ALL_TIMESTAMPS_PATTERN =
     Seq (Opt bold)
    (Seq (Group (Seq (Opt (Seq (Plus Digit) (Atom (Lit (CHR '':'')))))
                (Seq (Plus Digit) (Seq (Atom (Lit (CHR '':''))) (Seq (Atom Digit) (Atom Digit))))))
    (Seq (Opt bold) (Ahead (Atom Space))))"

text \<open>
  One attempt of the engine at the start of \<open>s\<close>: the matched text \<open>match[0]\<close>, the
  capture \<open>match[1]\<close> and the text after the match. Group 1 takes part in every match
  of this pattern (lemma \<open>set_pattern\<close>), so its capture is never \<open>undefined\<close>.
\<close>

definition match_here :: "string \<Rightarrow> (string \<times> string \<times> string) option" where
  "match_here s =
     (case rmatch ALL_TIMESTAMPS_PATTERN (s, None) of
        [] \<Rightarrow> None
      | (r, g) # _ \<Rightarrow> Some (take (length s - length r) s, (case g of None \<Rightarrow> [] | Some x \<Rightarrow> x), r))"

text \<open>
  \<open>patternCopy.exec(text)\<close> on the text from \<open>lastIndex\<close> on: the first position at
  which the pattern matches, tried from left to right, the end of the text included. The
  result is the capture and the text from the new \<open>lastIndex\<close> on.
\<close>

fun exec :: "string \<Rightarrow> (string \<times> string) option" where
  "exec [] = (case match_here [] of Some (m, g, r) \<Rightarrow> Some (g, r) | None \<Rightarrow> None)"
| "exec (c # cs) = (case match_here (c # cs) of Some (m, g, r) \<Rightarrow> Some (g, r) | None \<Rightarrow> exec cs)"

text \<open>
  The loop \<^verbatim>\<open>while ((match = patternCopy.exec(text)) !== null)\<close> ends because every
  match of the pattern reads at least one character, so \<open>lastIndex\<close> grows.
\<close>

fun consuming :: "regex \<Rightarrow> bool" where
  "consuming (Atom k) = True"
| "consuming (Seq a b) = (consuming a \<or> consuming b)"
| "consuming (Opt a) = False"
| "consuming (Plus k) = True"
| "consuming (Group a) = consuming a"
| "consuming (Ahead a) = False"

lemma plus_matches_shorter: "r \<in> set (plus_matches k s) \<Longrightarrow> length r < length s"
  by (induction s) (auto split: if_splits)

lemma rmatch_length:
  "(r, g') \<in> set (rmatch a (s, g)) \<Longrightarrow> length r \<le> length s \<and> (consuming a \<longrightarrow> length r < length s)"
proof (induction a arbitrary: s g r g')
  case (Atom k)
  then show ?case by (auto split: list.splits if_splits)
next
  case (Seq a b)
  from Seq.prems obtain r1 g1 where 1: "(r1, g1) \<in> set (rmatch a (s, g))"
    and 2: "(r, g') \<in> set (rmatch b (r1, g1))" by auto
  from Seq.IH(1) [OF 1] Seq.IH(2) [OF 2] show ?case by auto
next
  case (Opt a)
  then show ?case by auto
next
  case (Plus k)
  then show ?case by (auto dest: plus_matches_shorter)
next
  case (Group a)
  then show ?case by fastforce
next
  case (Ahead a)
  then show ?case by (auto split: if_splits)
qed

lemma match_here_shorter: "match_here s = Some (m, g, r) \<Longrightarrow> length r < length s"
proof -
  assume a: "match_here s = Some (m, g, r)"
  then obtain g' where "(r, g') \<in> set (rmatch ALL_TIMESTAMPS_PATTERN (s, None))"
    by (auto simp: match_here_def split: list.splits)
  from rmatch_length [OF this] show ?thesis
    by (simp add: ALL_TIMESTAMPS_PATTERN_def)
qed

lemma exec_shorter: "exec s = Some (g, r) \<Longrightarrow> length r < length s"
proof (induction s)
  case Nil
  then show ?case by (auto split: option.splits dest: match_here_shorter)
next
  case (Cons c cs)
  then show ?case by (fastforce split: option.splits dest: match_here_shorter)
qed

text \<open>The captures \<open>match[1]\<close> of the successive matches.\<close>

function matches :: "string \<Rightarrow> string list" where
  "matches text = (case exec text of None \<Rightarrow> [] | Some (g, r) \<Rightarrow> g # matches r)"
  by pat_completeness auto
termination
  by (relation "measure length") (auto dest: exec_shorter)

declare matches.simps [simp del]




text \<open>The parts of the pattern, and the shape of a literal written out (used in the proofs).\<close>

definition literal :: regex where
  "literal = Seq (Opt (Seq (Plus Digit) (Atom (Lit (CHR '':'')))))
                (Seq (Plus Digit) (Seq (Atom (Lit (CHR '':''))) (Seq (Atom Digit) (Atom Digit))))"

definition closing :: regex where
  "closing = Seq (Opt bold) (Ahead (Atom Space))"

definition literal_shape :: "string \<Rightarrow> bool" where
  "literal_shape L =
     ((\<exists>m a b. digits1 m \<and> is_digit a \<and> is_digit b \<and> L = m @ CHR '':'' # [a, b]) \<or>
      (\<exists>h m a b. digits1 h \<and> digits1 m \<and> is_digit a \<and> is_digit b \<and>
         L = h @ CHR '':'' # m @ CHR '':'' # [a, b]))"

section \<open>The document\<close>

text \<open>
  A node of the document tree is a text node or an element. Every node carries a number
  that stands for its identity as an object: the program keeps references to nodes while
  it rewrites the tree, and a reference to a node that has been replaced still names that
  node, now outside the document. An element has its tag name (lower case), its \<open>id\<close>,
  its class list, its \<open>src\<close> and \<open>title\<close> attributes (empty when absent) and, for a
  marker, what its click listener has captured: the block container and the seconds.
\<close>

record attrs =
  tag :: string
  elem_id :: string
  classes :: "string list"
  src :: string
  title :: string
  click :: "(nat \<times> jsnum) option"

datatype node = Text nat string | Element nat attrs "node list"

text \<open>
  The document is the content of its \<open>head\<close> and the content of its \<open>body\<close>; the
  \<open>html\<close>, \<open>head\<close> and \<open>body\<close> elements themselves carry none of the classes and ids
  the program looks for. \<open>next_id\<close> is the identity of the next node created. In a
  document as the browser holds it the identities are pairwise different and below
  \<open>next_id\<close>; the operations below are defined on every value of the type.
\<close>

record document =
  head :: "node list"
  body :: "node list"
  next_id :: nat

fun node_id :: "node \<Rightarrow> nat" where
  "node_id (Text i s) = i"
| "node_id (Element i a cs) = i"

fun has_class :: "string \<Rightarrow> node \<Rightarrow> bool" where
  "has_class c (Text i s) = False"
| "has_class c (Element i a cs) = (c \<in> set (classes a))"

fun textContent :: "node \<Rightarrow> string" where
  "textContent (Text i s) = s"
| "textContent (Element i a cs) = concat (map textContent cs)"

fun elements :: "node \<Rightarrow> node list" where
  \<comment> \<open>the elements of a subtree in document order, its root first\<close>
  "elements (Text i s) = []"
| "elements (Element i a cs) = Element i a cs # concat (map elements cs)"

definition all_elements :: "document \<Rightarrow> node list" where
  "all_elements d = concat (map elements (head d @ body d))"

definition querySelectorAll_class :: "string \<Rightarrow> document \<Rightarrow> node list" where
  \<comment> \<open>\<open>document.querySelectorAll('.c')\<close>\<close>
  "querySelectorAll_class c d = filter (has_class c) (all_elements d)"

definition find_element :: "nat \<Rightarrow> document \<Rightarrow> node option" where
  \<comment> \<open>the element a reference points to, as it is in the document now\<close>
  "find_element i d = List.find (\<lambda>n. node_id n = i) (all_elements d)"

fun block_content_matches :: "attrs \<Rightarrow> node \<Rightarrow> node list" where
  \<comment> \<open>the elements of a subtree that match \<open>.rm-block-text, .rm-block__input > span\<close>,
      in document order; the first argument is the parent of the root\<close>
  "block_content_matches p (Text i s) = []"
| "block_content_matches p (Element i a cs) =
     (if ''rm-block-text'' \<in> set (classes a) \<or>
         (tag a = ''span'' \<and> ''rm-block__input'' \<in> set (classes p))
      then [Element i a cs] else [])
     @ concat (map (block_content_matches a) cs)"

fun query_block_content :: "node \<Rightarrow> node option" where
  \<comment> \<open>\<open>container.querySelector('.rm-block-text, .rm-block__input > span')\<close>\<close>
  "query_block_content (Text i s) = None"
| "query_block_content (Element i a cs) =
     (case concat (map (block_content_matches a) cs) of [] \<Rightarrow> None | n # _ \<Rightarrow> Some n)"

fun walk_text :: "attrs \<Rightarrow> node \<Rightarrow> (nat \<times> string \<times> bool) list" where
  \<comment> \<open>the text nodes of a subtree in document order (the tree walker with \<open>SHOW_TEXT\<close>),
      each with its data and whether its parent element has the class \<open>yts-timestamp\<close>;
      the first argument is the parent of the root\<close>
  "walk_text p (Text i s) = [(i, s, ''yts-timestamp'' \<in> set (classes p))]"
| "walk_text p (Element i a cs) = concat (map (walk_text a) cs)"

fun text_nodes :: "node \<Rightarrow> (nat \<times> string \<times> bool) list" where
  "text_nodes (Text i s) = []"
| "text_nodes (Element i a cs) = concat (map (walk_text a) cs)"

fun marked_parent :: "nat \<Rightarrow> node \<Rightarrow> bool" where
  \<comment> \<open>in this subtree, a node with identity \<open>n\<close> is a child of a \<open>yts-timestamp\<close> element\<close>
  "marked_parent n (Text i s) = False"
| "marked_parent n (Element i a cs) =
     ((''yts-timestamp'' \<in> set (classes a) \<and> n \<in> set (map node_id cs))
      \<or> list_ex (marked_parent n) cs)"

definition parent_is_marker :: "nat \<Rightarrow> document \<Rightarrow> bool" where
  \<comment> \<open>\<open>node.parentElement?.classList.contains('yts-timestamp')\<close>: false for a node that is
      no longer in the document\<close>
  "parent_is_marker n d = list_ex (marked_parent n) (head d @ body d)"

fun replace_text :: "nat \<Rightarrow> node list \<Rightarrow> node \<Rightarrow> node list" where
  \<comment> \<open>the subtree with the text node \<open>n\<close> replaced by the nodes of a fragment\<close>
  "replace_text n frag (Text i s) = (if i = n then frag else [Text i s])"
| "replace_text n frag (Element i a cs) = [Element i a (concat (map (replace_text n frag) cs))]"

definition replaceChild :: "node list \<Rightarrow> nat \<Rightarrow> document \<Rightarrow> document" where
  \<comment> \<open>\<open>node.parentNode?.replaceChild(fragment, node)\<close> for a text node: nothing happens
      when the node is no longer in the document\<close>
  "replaceChild frag n d =
     d\<lparr>head := concat (map (replace_text n frag) (head d)),
       body := concat (map (replace_text n frag) (body d))\<rparr>"

fun unwrap :: "nat \<Rightarrow> nat \<Rightarrow> node \<Rightarrow> node list" where
  \<comment> \<open>the subtree with the element \<open>n\<close> replaced by a new text node \<open>t\<close> that holds the
      element's text content\<close>
  "unwrap n t (Text i s) = [Text i s]"
| "unwrap n t (Element i a cs) =
     (if i = n then [Text t (textContent (Element i a cs))]
      else [Element i a (concat (map (unwrap n t) cs))])"

fun remove_element :: "nat \<Rightarrow> node \<Rightarrow> node list" where
  \<comment> \<open>the subtree without the element \<open>n\<close>\<close>
  "remove_element n (Text i s) = [Text i s]"
| "remove_element n (Element i a cs) =
     (if i = n then [] else [Element i a (concat (map (remove_element n) cs))])"

section \<open>Searching a text node\<close>

fun find_sub :: "string \<Rightarrow> string \<Rightarrow> nat option" where
  \<comment> \<open>the first position at which \<open>pat\<close> occurs in \<open>s\<close>\<close>
  "find_sub pat [] = (if pat = [] then Some 0 else None)"
| "find_sub pat (c # cs) =
     (if take (length pat) (c # cs) = pat then Some 0 else map_option Suc (find_sub pat cs))"

definition indexOf :: "string \<Rightarrow> string \<Rightarrow> nat \<Rightarrow> nat option" where
  \<comment> \<open>\<open>s.indexOf(pat, position)\<close>, with \<open>None\<close> for \<open>-1\<close>\<close>
  "indexOf s pat position =
     (let p = min position (length s) in map_option (\<lambda>i. i + p) (find_sub pat (drop p s)))"

lemma find_sub_bound: "find_sub pat s = Some i \<Longrightarrow> i + length pat \<le> length s"
proof (induction s arbitrary: i)
  case Nil
  then show ?case by (auto split: if_splits)
next
  case (Cons c cs)
  show ?case
  proof (cases "take (length pat) (c # cs) = pat")
    case True
    from arg_cong [OF True, of length]
    have "min (length pat) (length (c # cs)) = length pat"
      by (simp only: length_take)
    then have "length pat \<le> length (c # cs)" by linarith
    with True Cons.prems show ?thesis by simp
  next
    case False
    with Cons.prems obtain j where "find_sub pat cs = Some j" "i = Suc j" by auto
    with Cons.IH show ?thesis by fastforce
  qed
qed

lemma indexOf_bound:
  "indexOf s pat p = Some i \<Longrightarrow> min p (length s) \<le> i \<and> i + length pat \<le> length s"
  by (auto simp: indexOf_def Let_def dest!: find_sub_bound)

text \<open>
  The loop that collects the positions of a timestamp in a text node:
  \<^verbatim>\<open>while ((idx = nodeText.indexOf(timestamp, searchIdx)) !== -1) { ...; searchIdx = idx + timestamp.length }\<close>.
  It ends because the timestamp is not empty. The pass searches only for captures of the
  recogniser, which are never empty (lemmas \<open>matches_grammar\<close> and \<open>grammar_ne\<close>); for
  the empty string, which the loop of the source would find for ever, the model stops at
  once.
\<close>

function occurrences :: "string \<Rightarrow> string \<Rightarrow> nat \<Rightarrow> nat list" where
  "occurrences nodeText timestamp searchIdx =
     (if timestamp = [] then []
      else case indexOf nodeText timestamp searchIdx of
             None \<Rightarrow> []
           | Some idx \<Rightarrow> idx # occurrences nodeText timestamp (idx + length timestamp))"
  by pat_completeness auto
termination
proof (relation "measure (\<lambda>(s, t, i). Suc (length s) - i)")
  fix nodeText timestamp :: string and searchIdx idx :: nat
  assume ne: "timestamp \<noteq> []" and found: "indexOf nodeText timestamp searchIdx = Some idx"
  define k where "k = length timestamp"
  define m where "m = length nodeText"
  from ne have "0 < k" by (simp add: k_def)
  moreover from indexOf_bound [OF found]
  have "min searchIdx m \<le> idx" "idx + k \<le> m"
    by (simp_all add: k_def m_def)
  ultimately have "Suc m - (idx + k) < Suc m - searchIdx"
    by (cases "searchIdx \<le> m") (simp_all add: min_def)
  then have "Suc (length nodeText) - (idx + length timestamp) < Suc (length nodeText) - searchIdx"
    by (simp only: k_def m_def)
  then show "((nodeText, timestamp, idx + length timestamp), (nodeText, timestamp, searchIdx))
      \<in> measure (\<lambda>(s, t, i). Suc (length s) - i)"
    by simp
qed simp

declare occurrences.simps [simp del]

section \<open>The augmentation pass: addTimestampButtons\<close>

definition timestampMatches :: "string \<Rightarrow> (string \<times> jsnum) list" where
  \<comment> \<open>the distinct captures of the recogniser in the text, in the order of their first
      match, each with its seconds\<close>
  "timestampMatches txt =
     foldl (\<lambda>acc timestamp.
              if list_ex (\<lambda>t. fst t = timestamp) acc then acc
              else acc @ [(timestamp, parseTimestamp timestamp)])
       [] (matches txt)"

definition nodesToProcess :: "string \<Rightarrow> node \<Rightarrow> (nat \<times> string \<times> nat) list" where
  \<comment> \<open>for every text node under the block content whose parent is not a marker, one entry
      per position of the timestamp in it: the node, its data, the position\<close>
  "nodesToProcess timestamp blockContent =
     concat (map (\<lambda>(n, nodeText, marked).
                    if marked then []
                    else map (\<lambda>idx. (n, nodeText, idx)) (occurrences nodeText timestamp 0))
               (text_nodes blockContent))"

definition timestampSpan :: "nat \<Rightarrow> nat \<Rightarrow> string \<Rightarrow> jsnum \<Rightarrow> node" where
  \<comment> \<open>the marker: a new \<open>span\<close> with the class \<open>yts-timestamp\<close>, the timestamp as its text,
      a title, and a click listener that has captured the container and the seconds\<close>
  "timestampSpan i container timestamp seconds =
     Element i
       \<lparr>tag = ''span'', elem_id = [], classes = [''yts-timestamp''], src = [],
        title = ''Click to jump to '' @ timestamp, click = Some (container, seconds)\<rparr>
       (if timestamp = [] then [] else [Text (i + 1) timestamp])"

definition wrap_occurrence ::
  "nat \<Rightarrow> string \<Rightarrow> jsnum \<Rightarrow> nat \<times> string \<times> nat \<Rightarrow> document \<Rightarrow> document" where
  \<comment> \<open>the body of the loop over \<open>nodesToProcess.reverse()\<close>: the position is looked up
      again with \<open>indexOf(timestamp)\<close>, which finds the first one; the recorded \<open>idx\<close> is
      not used\<close>
  "wrap_occurrence container timestamp seconds e d =
     (case e of (n, nodeText, idx) \<Rightarrow>
        (case indexOf nodeText timestamp 0 of
           None \<Rightarrow> d
         | Some currentIdx \<Rightarrow>
             if parent_is_marker n d then d
             else
               let beforeText = take currentIdx nodeText;
                   afterText = drop (currentIdx + length timestamp) nodeText;
                   i = next_id d;
                   fragment =
                     (if beforeText = [] then [] else [Text (i + 2) beforeText])
                     @ [timestampSpan i container timestamp seconds]
                     @ (if afterText = [] then [] else [Text (i + 3) afterText])
               in replaceChild fragment n (d\<lparr>next_id := i + 4\<rparr>)))"

definition process_timestamp :: "nat \<Rightarrow> nat \<Rightarrow> string \<times> jsnum \<Rightarrow> document \<Rightarrow> document" where
  \<comment> \<open>one round of the loop over \<open>timestampMatches\<close>; the block content is the element as
      it is in the document when the round starts\<close>
  "process_timestamp container blockContent m d =
     (case m of (timestamp, seconds) \<Rightarrow>
        (case find_element blockContent d of
           None \<Rightarrow> d
         | Some bc \<Rightarrow>
             foldl (\<lambda>d e. wrap_occurrence container timestamp seconds e d) d
               (rev (nodesToProcess timestamp bc))))"

definition process_container :: "nat \<Rightarrow> document \<Rightarrow> document" where
  \<comment> \<open>the callback of \<open>blockContainers.forEach\<close>\<close>
  "process_container c d =
     (case find_element c d of
        None \<Rightarrow> d
      | Some container \<Rightarrow>
          (case query_block_content container of
             None \<Rightarrow> d
           | Some blockContent \<Rightarrow>
               foldl (\<lambda>d m. process_timestamp c (node_id blockContent) m d) d
                 (timestampMatches (textContent blockContent))))"

definition addTimestampButtons :: "document \<Rightarrow> document" where
  "addTimestampButtons d =
     foldl (\<lambda>d c. process_container c d) d
       (map node_id (querySelectorAll_class ''roam-block-container'' d))"

section \<open>The mutation watcher: initTimestampObserver and cleanupTimestampObserver\<close>

text \<open>
  Time is a clock in milliseconds. The watcher's state is the document, the mutation
  observers that are observing \<open>document.body\<close> (by identity), \<open>window.YTSObserver\<close>, and
  the timers set with \<open>setTimeout(addTimestampButtons, 100)\<close> that have not fired yet,
  each by its due time, in the order in which they were set.
\<close>

datatype mutation_type = childList | characterData | attributes_changed

record mutation =
  mtype :: mutation_type
  addedNodes :: nat

record state =
  dom :: document
  observers :: "nat list"
  next_observer :: nat
  YTSObserver :: "nat option"
  timers :: "nat list"
  now :: nat

definition observer_callback :: "mutation list \<Rightarrow> state \<Rightarrow> state" where
  \<comment> \<open>the callback given to \<open>new MutationObserver\<close>\<close>
  "observer_callback mutations st =
     (let shouldUpdate = list_ex (\<lambda>m. addedNodes m > 0 \<or> mtype m = characterData) mutations
      in if shouldUpdate then st\<lparr>timers := timers st @ [now st + 100]\<rparr> else st)"

definition deliver :: "mutation list \<Rightarrow> state \<Rightarrow> state" where
  \<comment> \<open>the records of a change below \<open>body\<close> reach every observer that is observing\<close>
  "deliver mutations st =
     (if mutations = [] then st
      else foldl (\<lambda>st ob. observer_callback mutations st) st (observers st))"

definition own_mutations :: "node list \<Rightarrow> node list \<Rightarrow> mutation list" where
  \<comment> \<open>the records of what the program itself changed below \<open>body\<close>. Each replacement it
      makes puts at least one new node in, so one record with an added node stands for the
      batch.\<close>
  "own_mutations old new =
     (if old = new then [] else [\<lparr>mtype = childList, addedNodes = 1\<rparr>])"

definition run_pass :: "state \<Rightarrow> state" where
  \<comment> \<open>\<open>addTimestampButtons()\<close> under the eyes of the observers\<close>
  "run_pass st =
     (let d = addTimestampButtons (dom st)
      in deliver (own_mutations (body (dom st)) (body d)) (st\<lparr>dom := d\<rparr>))"

definition yts_css :: string where
  \<comment> \<open>the two rules of the style sheet, written on one line\<close>
  "yts_css = ''.yts-timestamp { color: #137cbd; cursor: pointer; text-decoration: underline; text-decoration-style: dotted; } .yts-timestamp:hover { color: #0d5a8c; text-decoration-style: solid; }''"

definition style_element :: "nat \<Rightarrow> node" where
  "style_element i =
     Element i \<lparr>tag = ''style'', elem_id = ''yts-styles'', classes = [], src = [], title = [],
                click = None\<rparr>
       [Text (i + 1) yts_css]"

definition initTimestampObserver :: "state \<Rightarrow> state" where
  "initTimestampObserver st =
     (let d = dom st;
          i = next_id d;
          st1 = st\<lparr>dom := d\<lparr>head := head d @ [style_element i], next_id := i + 2\<rparr>\<rparr>;
          st2 = run_pass st1;
          observer = next_observer st2
      in st2\<lparr>observers := observers st2 @ [observer],
             next_observer := observer + 1,
             YTSObserver := Some observer\<rparr>)"

fun has_id :: "string \<Rightarrow> node \<Rightarrow> bool" where
  "has_id x (Text i s) = False"
| "has_id x (Element i a cs) = (elem_id a = x)"

definition getElementById :: "string \<Rightarrow> document \<Rightarrow> node option" where
  \<comment> \<open>the first element of the document with the id\<close>
  "getElementById x d = List.find (has_id x) (all_elements d)"

definition remove_node :: "nat \<Rightarrow> document \<Rightarrow> document" where
  \<comment> \<open>\<open>element.remove()\<close>\<close>
  "remove_node n d =
     d\<lparr>head := concat (map (remove_element n) (head d)),
       body := concat (map (remove_element n) (body d))\<rparr>"

definition replaceWith_text :: "nat \<Rightarrow> document \<Rightarrow> document" where
  \<comment> \<open>\<open>span.replaceWith(document.createTextNode(span.textContent || ''))\<close>: the document
      does not change when the span is no longer in it\<close>
  "replaceWith_text n d =
     d\<lparr>head := concat (map (unwrap n (next_id d)) (head d)),
       body := concat (map (unwrap n (next_id d)) (body d)),
       next_id := next_id d + 1\<rparr>"

definition remove_styles :: "document \<Rightarrow> document" where
  \<comment> \<open>\<open>const style = document.getElementById('yts-styles'); if (style) style.remove()\<close>\<close>
  "remove_styles d =
     (case getElementById ''yts-styles'' d of
        Some style \<Rightarrow> remove_node (node_id style) d
      | None \<Rightarrow> d)"

definition cleanupTimestampObserver :: "state \<Rightarrow> state" where
  "cleanupTimestampObserver st =
     (let st1 = (case YTSObserver st of
                   Some observer \<Rightarrow>
                     st\<lparr>observers := removeAll observer (observers st), YTSObserver := None\<rparr>
                 | None \<Rightarrow> st);
          d1 = remove_styles (dom st1);
          spans = map node_id (querySelectorAll_class ''yts-timestamp'' d1);
          d2 = foldl (\<lambda>d span. replaceWith_text span d) d1 spans
      in deliver (own_mutations (body d1) (body d2)) (st1\<lparr>dom := d2\<rparr>))"

text \<open>
  What happens around the program: the host changes the body at a time \<open>t\<close>, which
  reaches the observers as mutation records (the host's change of the tree itself is not
  modelled); and the event loop fires the pending timer that is due first, which runs a
  pass.
\<close>

definition host_mutation :: "nat \<Rightarrow> mutation list \<Rightarrow> state \<Rightarrow> state" where
  "host_mutation t mutations st = deliver mutations (st\<lparr>now := max (now st) t\<rparr>)"

definition fire_timer :: "state \<Rightarrow> state" where
  "fire_timer st =
     (case timers st of
        [] \<Rightarrow> st
      | t # ts \<Rightarrow>
          let due = fold min ts t
          in run_pass (st\<lparr>timers := remove1 due (timers st), now := max (now st) due\<rparr>))"

section \<open>The player locator: findYouTubePlayer\<close>

definition src_includes :: "string \<Rightarrow> string \<Rightarrow> bool" where
  \<comment> \<open>the attribute selector \<open>[src*="pat"]\<close>: the value contains the text\<close>
  "src_includes s pat = (find_sub pat s \<noteq> None)"

fun is_youtube_iframe :: "node \<Rightarrow> bool" where
  \<comment> \<open>\<open>iframe[src*="youtube.com"], iframe[src*="youtu.be"]\<close>\<close>
  "is_youtube_iframe (Text i s) = False"
| "is_youtube_iframe (Element i a cs) =
     (tag a = ''iframe'' \<and> (src_includes (src a) ''youtube.com'' \<or> src_includes (src a) ''youtu.be''))"

fun query_iframe :: "node \<Rightarrow> node option" where
  \<comment> \<open>\<open>element.querySelector(...)\<close>: the first descendant that is a YouTube iframe\<close>
  "query_iframe (Text i s) = None"
| "query_iframe (Element i a cs) = List.find is_youtube_iframe (concat (map elements cs))"

text \<open>
  An element is handed to the locator as a reference into the document. Walking up from
  it needs its ancestors: \<open>path_to n x\<close> is the chain from the element \<open>n\<close> up to the root
  \<open>x\<close> of the subtree, the element first, and empty when the element is not in the subtree.
  A variable of the source that holds an element or \<open>null\<close> is modelled by such a chain,
  \<open>null\<close> by the empty one.
\<close>

fun path_to :: "nat \<Rightarrow> node \<Rightarrow> node list" where
  "path_to n (Text i s) = []"
| "path_to n (Element i a cs) =
     (if i = n then [Element i a cs]
      else case filter (\<lambda>p. p \<noteq> []) (map (path_to n) cs) of
             [] \<Rightarrow> []
           | p # _ \<Rightarrow> p @ [Element i a cs])"

definition ancestors_or_self :: "nat \<Rightarrow> document \<Rightarrow> node list" where
  "ancestors_or_self n d =
     (case filter (\<lambda>p. p \<noteq> []) (map (path_to n) (head d @ body d)) of [] \<Rightarrow> [] | p # _ \<Rightarrow> p)"

definition closest_container :: "node list \<Rightarrow> node list" where
  \<comment> \<open>\<open>element.closest('.roam-block-container')\<close>: the element itself or its nearest
      ancestor with the class\<close>
  "closest_container chain = dropWhile (\<lambda>e. \<not> has_class ''roam-block-container'' e) chain"

lemma closest_container_length: "length (closest_container chain) \<le> length chain"
  unfolding closest_container_def by (rule length_dropWhile_le)

function player_loop :: "node list \<Rightarrow> node option" where
  \<comment> \<open>the \<open>while (current)\<close> loop; \<open>None\<close> when it ends without a \<open>return\<close>\<close>
  "player_loop current =
     (case closest_container current of
        [] \<Rightarrow> None
      | container # outer \<Rightarrow>
          (case closest_container outer of
             [] \<Rightarrow> None
           | parentContainer # further \<Rightarrow>
               (case query_iframe parentContainer of
                  Some iframe \<Rightarrow> Some iframe
                | None \<Rightarrow> player_loop (parentContainer # further))))"
  by pat_completeness auto
termination
proof (relation "measure length")
  fix current container outer parentContainer further
  assume 1: "closest_container current = container # outer"
    and 2: "closest_container outer = parentContainer # further"
  from closest_container_length [of outer] 2 have "length (parentContainer # further) \<le> length outer"
    by simp
  moreover from closest_container_length [of current] 1 have "length outer < length current"
    by simp
  ultimately show "(parentContainer # further, current) \<in> measure length" by simp
qed simp

declare player_loop.simps [simp del]

definition findYouTubePlayer :: "document \<Rightarrow> nat \<Rightarrow> node option" where
  "findYouTubePlayer d blockElement =
     (case player_loop (ancestors_or_self blockElement d) of
        Some iframe \<Rightarrow> Some iframe
      | None \<Rightarrow>
          (case filter is_youtube_iframe (all_elements d) of
             [] \<Rightarrow> None
           | iframe # _ \<Rightarrow> Some iframe))"

section \<open>Example documents\<close>

definition plain :: "string \<Rightarrow> string list \<Rightarrow> attrs" where
  \<comment> \<open>an element with a tag and classes and nothing else\<close>
  "plain t cl = \<lparr>tag = t, elem_id = [], classes = cl, src = [], title = [], click = None\<rparr>"

definition one_block :: "string \<Rightarrow> document" where
  \<comment> \<open>a block container whose block text is one text node\<close>
  "one_block txt =
     \<lparr>head = [],
      body = [Element 1 (plain ''div'' [''roam-block-container''])
               [Element 2 (plain ''span'' [''rm-block-text'']) [Text 3 txt]]],
      next_id = 4\<rparr>"

definition two_lines :: document where
  \<comment> \<open>a block whose text is two text nodes with a line break between them\<close>
  "two_lines =
     \<lparr>head = [],
      body = [Element 1 (plain ''div'' [''roam-block-container''])
               [Element 2 (plain ''span'' [''rm-block-text''])
                 [Text 3 ''02:10 hello'', Element 4 (plain ''br'' []) [], Text 5 ''02:10 world'']]],
      next_id = 6\<rparr>"

definition youtube_iframe :: "nat \<Rightarrow> node" where
  "youtube_iframe i =
     Element i ((plain ''iframe'' [])\<lparr>src := ''https://www.youtube.com/embed/dQw4w9WgXcQ''\<rparr>) []"

definition lone_player :: document where
  \<comment> \<open>a block container, and one embedded player that is not inside a block container\<close>
  "lone_player =
     \<lparr>head = [],
      body = [Element 1 (plain ''div'' [''roam-block-container''])
               [Element 2 (plain ''span'' [''rm-block-text'']) [Text 3 ''02:10 hello'']],
             Element 4 (plain ''div'' []) [youtube_iframe 5]],
      next_id = 6\<rparr>"

definition stopped :: "document \<Rightarrow> state" where
  \<comment> \<open>the watcher before the first start\<close>
  "stopped d =
     \<lparr>dom = d, observers = [], next_observer = 0, YTSObserver = None, timers = [], now = 0\<rparr>"

definition added_node :: mutation where
  \<comment> \<open>a record of a child list change that added one node\<close>
  "added_node = \<lparr>mtype = childList, addedNodes = 1\<rparr>"

section \<open>What the claims about the watcher count\<close>

definition style_count :: "document \<Rightarrow> nat" where
  \<comment> \<open>the number of elements with the id \<open>yts-styles\<close>\<close>
  "style_count d = length (filter (has_id ''yts-styles'') (all_elements d))"

definition markers :: "document \<Rightarrow> node list" where
  \<comment> \<open>\<open>document.querySelectorAll('.yts-timestamp')\<close>\<close>
  "markers d = querySelectorAll_class ''yts-timestamp'' d"

definition body_text :: "document \<Rightarrow> string" where
  \<comment> \<open>\<open>document.body.textContent\<close>\<close>
  "body_text d = concat (map textContent (body d))"

text \<open>The same counts by recursion over the tree (used in the proofs).\<close>

fun count_id :: "string \<Rightarrow> node \<Rightarrow> nat" where
  "count_id x (Text i s) = 0"
| "count_id x (Element i a cs) = (if elem_id a = x then 1 else 0) + sum_list (map (count_id x) cs)"

fun class_ids :: "string \<Rightarrow> node \<Rightarrow> nat set" where
  \<comment> \<open>the identities of the elements of a subtree that have the class\<close>
  "class_ids c (Text i s) = {}"
| "class_ids c (Element i a cs) =
     (if c \<in> set (classes a) then {i} else {}) \<union> (\<Union>k \<in> set cs. class_ids c k)"

definition forest_ids :: "string \<Rightarrow> document \<Rightarrow> nat set" where
  "forest_ids c d = (\<Union>k \<in> set (head d @ body d). class_ids c k)"

section \<open>Facts about formatting and parsing\<close>


lemma split_colon_ne [simp]: "split_colon s \<noteq> []"
  by (induction s) auto




lemma showNat_ne: "showNat n \<noteq> []"
  by (subst showNat.simps) simp





lemma length_showNat_ge2: "10 \<le> n \<Longrightarrow> 2 \<le> length (showNat n)"
  by (subst showNat.simps) (simp add: Suc_le_eq showNat_ne)









lemma digit_not_colon: "is_digit c \<Longrightarrow> c \<noteq> CHR '':''"
  by (auto simp: is_digit_def)

lemma split_colon_digits: "list_all is_digit s \<Longrightarrow> split_colon s = [s]"
  by (induction s) (auto simp: digit_not_colon)

lemma split_colon_app: "list_all is_digit a \<Longrightarrow> split_colon (a @ CHR '':'' # b) = a # split_colon b"
  by (induction a) (auto simp: digit_not_colon)

lemma parseTimestamp_three:
  "split_colon t = [h, m, s] \<Longrightarrow>
   parseTimestamp t = num_add (num_add (num_mul (js_Number h) (Some 3600)) (num_mul (js_Number m) (Some 60))) (js_Number s)"
  by (simp add: parseTimestamp_def part_def)

lemma parseTimestamp_two:
  "split_colon t = [m, s] \<Longrightarrow> parseTimestamp t = num_add (num_mul (js_Number m) (Some 60)) (js_Number s)"
  by (simp add: parseTimestamp_def part_def)










lemma grammar_cases:
  assumes "timestamp_grammar L"
  obtains m ss where "split_colon L = [m, ss]" "digits1 m" "list_all is_digit ss" "length ss = 2"
  | h m ss where "split_colon L = [h, m, ss]" "digits1 h" "digits1 m" "list_all is_digit ss" "length ss = 2"
  using assms unfolding timestamp_grammar_def
  by (auto split: list.splits)

lemma dec_nonneg_aux: "list_all is_digit s \<Longrightarrow> 0 \<le> a \<Longrightarrow> 0 \<le> foldl (\<lambda>a c. 10 * a + digit_val c) a s"
  by (induction s arbitrary: a) (auto simp: is_digit_def digit_val_def)

lemma dec_nonneg: "list_all is_digit s \<Longrightarrow> 0 \<le> dec s"
  unfolding dec_def by (rule dec_nonneg_aux) simp_all

lemma js_Number_digits: "list_all is_digit s \<Longrightarrow> js_Number s = Some (dec s)"
  by (simp add: js_Number_def dec_def)

lemma parseTimestamp_grammar:
  assumes "timestamp_grammar L"
  shows "\<exists>n. parseTimestamp L = Some n \<and> 0 \<le> n"
  using assms
proof (cases rule: grammar_cases)
  case (1 m ss)
  then show ?thesis
    by (simp add: parseTimestamp_two js_Number_digits digits1_def num_add_def num_mul_def dec_nonneg)
next
  case (2 h m ss)
  then show ?thesis
    by (simp add: parseTimestamp_three js_Number_digits digits1_def num_add_def num_mul_def dec_nonneg)
qed

section \<open>Facts about the recogniser\<close>

lemma split_colon_single: "split_colon s = [x] \<Longrightarrow> s = x"
proof (induction s arbitrary: x)
  case Nil
  then show ?case by simp
next
  case (Cons c cs)
  then have nc: "c \<noteq> CHR '':''" by (auto split: if_splits)
  with Cons.prems have "tl (split_colon cs) = []" "x = c # hd (split_colon cs)" by auto
  then have "split_colon cs = [hd (split_colon cs)]"
    by (metis list.collapse split_colon_ne)
  from Cons.IH [OF this] show ?case using \<open>x = c # hd (split_colon cs)\<close> by simp
qed

lemma split_colon_cons: "split_colon s = x # y # ys \<Longrightarrow> \<exists>t. s = x @ CHR '':'' # t \<and> split_colon t = y # ys"
proof (induction s arbitrary: x)
  case Nil
  then show ?case by simp
next
  case (Cons c cs)
  show ?case
  proof (cases "c = CHR '':''")
    case True
    with Cons.prems show ?thesis by auto
  next
    case False
    with Cons.prems have x: "x = c # hd (split_colon cs)" and t: "tl (split_colon cs) = y # ys" by auto
    then have "split_colon cs = hd (split_colon cs) # y # ys"
      by (metis list.collapse split_colon_ne)
    from Cons.IH [OF this] obtain t where "cs = hd (split_colon cs) @ CHR '':'' # t" "split_colon t = y # ys"
      by blast
    with x show ?thesis by (intro exI [of _ t]) simp
  qed
qed

lemma two_chars: "length ss = 2 \<Longrightarrow> \<exists>a b. ss = [a, b]"
  by (cases ss; cases "tl ss") auto

lemma shape_grammar: "literal_shape L = timestamp_grammar L"
proof
  assume "literal_shape L"
  then show "timestamp_grammar L"
    unfolding literal_shape_def timestamp_grammar_def
    by (auto simp: split_colon_app split_colon_digits digits1_def dest: digit_not_colon)
next
  assume g: "timestamp_grammar L"
  then consider
    (two) m ss where "split_colon L = [m, ss]" "digits1 m" "list_all is_digit ss" "length ss = 2"
  | (three) h m ss where "split_colon L = [h, m, ss]" "digits1 h" "digits1 m" "list_all is_digit ss" "length ss = 2"
    unfolding timestamp_grammar_def by (auto split: list.splits)
  then show "literal_shape L"
  proof cases
    case two
    from split_colon_cons [OF two(1)] obtain t where "L = m @ CHR '':'' # t" "split_colon t = [ss]" by blast
    with split_colon_single have L: "L = m @ CHR '':'' # ss" by blast
    from two_chars [OF two(4)] obtain a b where "ss = [a, b]" by blast
    with two L show ?thesis unfolding literal_shape_def by auto
  next
    case three
    from split_colon_cons [OF three(1)] obtain t where t: "L = h @ CHR '':'' # t" "split_colon t = [m, ss]" by blast
    from split_colon_cons [OF t(2)] obtain u where u: "t = m @ CHR '':'' # u" "split_colon u = [ss]" by blast
    with split_colon_single have "u = ss" by blast
    moreover from two_chars [OF three(5)] obtain a b where "ss = [a, b]" by blast
    ultimately show ?thesis using three t u unfolding literal_shape_def by auto
  qed
qed

lemma set_plus_matches:
  "set (plus_matches k s) = {r. \<exists>d. d \<noteq> [] \<and> list_all (in_class k) d \<and> s = d @ r}"
proof (induction s)
  case Nil
  then show ?case by simp
next
  case (Cons c cs)
  show ?case
  proof (cases "in_class k c")
    case False
    then show ?thesis by (auto simp: Cons_eq_append_conv)
  next
    case True
    show ?thesis
    proof (rule set_eqI, rule iffI)
      fix r assume "r \<in> set (plus_matches k (c # cs))"
      with True Cons.IH have "r = cs \<or> (\<exists>d. d \<noteq> [] \<and> list_all (in_class k) d \<and> cs = d @ r)" by auto
      then show "r \<in> {r. \<exists>d. d \<noteq> [] \<and> list_all (in_class k) d \<and> c # cs = d @ r}"
      proof
        assume "r = cs"
        with True show ?thesis by (intro CollectI exI [of _ "[c]"]) simp
      next
        assume "\<exists>d. d \<noteq> [] \<and> list_all (in_class k) d \<and> cs = d @ r"
        then obtain d where "d \<noteq> []" "list_all (in_class k) d" "cs = d @ r" by blast
        with True show ?thesis by (intro CollectI exI [of _ "c # d"]) simp
      qed
    next
      fix r assume "r \<in> {r. \<exists>d. d \<noteq> [] \<and> list_all (in_class k) d \<and> c # cs = d @ r}"
      then obtain d where d: "d \<noteq> []" "list_all (in_class k) d" "c # cs = d @ r" by blast
      then obtain d' where d': "d = c # d'" "cs = d' @ r" by (cases d) auto
      show "r \<in> set (plus_matches k (c # cs))"
      proof (cases "d' = []")
        case True
        with d' \<open>in_class k c\<close> show ?thesis by simp
      next
        case False
        with d d' have "r \<in> {r. \<exists>d. d \<noteq> [] \<and> list_all (in_class k) d \<and> cs = d @ r}" by auto
        with Cons.IH \<open>in_class k c\<close> show ?thesis by simp
      qed
    qed
  qed
qed


lemma not_digit_chars [simp]: "\<not> is_digit (CHR '':'')" "\<not> is_digit (CHR ''*'')"
  by (simp_all add: is_digit_def)

lemma space_not [simp]: "\<not> is_space (CHR '':'')" "\<not> is_space (CHR ''*'')"
  by (simp_all add: is_space_def)

lemma space_not_digit: "is_space w \<Longrightarrow> \<not> is_digit w"
  by (auto simp: is_space_def is_digit_def)

lemma in_class_Digit [simp]: "in_class Digit = is_digit"
  by (rule ext) simp

lemma in_Atom:
  "((r, c) \<in> set (rmatch (Atom k) (s, g))) = (c = g \<and> (\<exists>x. in_class k x \<and> s = x # r))"
  by (auto split: list.splits)

lemma in_Seq:
  "((r, c) \<in> set (rmatch (Seq a b) (s, g))) =
   (\<exists>r1 c1. (r1, c1) \<in> set (rmatch a (s, g)) \<and> (r, c) \<in> set (rmatch b (r1, c1)))"
  by auto

lemma in_Opt:
  "((r, c) \<in> set (rmatch (Opt a) (s, g))) = ((r, c) \<in> set (rmatch a (s, g)) \<or> (r = s \<and> c = g))"
  by auto

lemma in_Plus:
  "((r, c) \<in> set (rmatch (Plus k) (s, g))) =
   (c = g \<and> (\<exists>d. d \<noteq> [] \<and> list_all (in_class k) d \<and> s = d @ r))"
  by (auto simp: set_plus_matches)

lemma in_Group:
  "((r, c) \<in> set (rmatch (Group a) (s, g))) =
   (\<exists>c'. (r, c') \<in> set (rmatch a (s, g)) \<and> c = Some (take (length s - length r) s))"
  by auto

lemma in_Ahead:
  "((r, c) \<in> set (rmatch (Ahead a) (s, g))) =
   (r = s \<and> c = g \<and> (\<exists>r' c'. (r', c') \<in> set (rmatch a (s, g))))"
  by (cases "rmatch a (s, g)") auto

lemmas in_rmatch = in_Atom in_Seq in_Opt in_Plus in_Group in_Ahead

lemma set_digits_colon:
  "((r, c) \<in> set (rmatch (Seq (Plus Digit) (Atom (Lit (CHR '':'')))) (s, g))) =
   (c = g \<and> (\<exists>d. digits1 d \<and> s = d @ CHR '':'' # r))"
  unfolding in_rmatch digits1_def by auto

lemma set_digits_colon_two:
  "((r, c) \<in> set (rmatch (Seq (Plus Digit) (Seq (Atom (Lit (CHR '':''))) (Seq (Atom Digit) (Atom Digit)))) (s, g))) =
   (c = g \<and> (\<exists>d a b. digits1 d \<and> is_digit a \<and> is_digit b \<and> s = d @ CHR '':'' # a # b # r))"
  unfolding in_rmatch digits1_def by auto

lemma set_literal:
  "((r, c) \<in> set (rmatch literal (s, g))) = (c = g \<and> (\<exists>L. literal_shape L \<and> s = L @ r))"
proof -
  let ?Z = "Seq (Plus Digit) (Seq (Atom (Lit (CHR '':''))) (Seq (Atom Digit) (Atom Digit)))"
  have "((r, c) \<in> set (rmatch literal (s, g))) =
     ((\<exists>x y. (x, y) \<in> set (rmatch (Seq (Plus Digit) (Atom (Lit (CHR '':'')))) (s, g)) \<and>
         (r, c) \<in> set (rmatch ?Z (x, y)))
      \<or> (r, c) \<in> set (rmatch ?Z (s, g)))"
    unfolding literal_def in_Seq [of r c "Opt _"] in_Opt by blast
  also have "\<dots> = (c = g \<and> (\<exists>L. literal_shape L \<and> s = L @ r))"
    unfolding set_digits_colon set_digits_colon_two literal_shape_def
    by (rule iffI) (elim disjE exE conjE; force)+
  finally show ?thesis .
qed

lemma set_closing:
  "((r, c) \<in> set (rmatch closing (s, g))) =
   (c = g \<and> (\<exists>b w t. (b = [] \<or> b = ''**'') \<and> is_space w \<and> r = w # t \<and> s = b @ r))"
  unfolding closing_def bold_def in_rmatch by auto

lemma set_opening:
  "((r, c) \<in> set (rmatch (Opt bold) (s, g))) = (c = g \<and> (\<exists>b. (b = [] \<or> b = ''**'') \<and> s = b @ r))"
  unfolding bold_def in_rmatch by auto

lemma pattern_parts:
  "ALL_TIMESTAMPS_PATTERN = Seq (Opt bold) (Seq (Group literal) closing)"
  by (simp add: ALL_TIMESTAMPS_PATTERN_def literal_def closing_def)

lemma set_pattern:
  "((r, c) \<in> set (rmatch ALL_TIMESTAMPS_PATTERN (s, g))) =
   (\<exists>b1 L b2 w t. (b1 = [] \<or> b1 = ''**'') \<and> literal_shape L \<and> (b2 = [] \<or> b2 = ''**'') \<and>
      is_space w \<and> r = w # t \<and> s = b1 @ L @ b2 @ r \<and> c = Some L)"
  (is "?lhs = ?rhs")
proof
  assume ?lhs
  then obtain r1 c1 r2 c2 where
    1: "(r1, c1) \<in> set (rmatch (Opt bold) (s, g))" and
    2: "(r2, c2) \<in> set (rmatch (Group literal) (r1, c1))" and
    3: "(r, c) \<in> set (rmatch closing (r2, c2))"
    unfolding pattern_parts in_Seq by blast
  from 1 obtain b1 where b1: "b1 = [] \<or> b1 = ''**''" "s = b1 @ r1"
    unfolding set_opening by blast
  from 2 obtain c' where "(r2, c') \<in> set (rmatch literal (r1, c1))"
    and c2: "c2 = Some (take (length r1 - length r2) r1)"
    unfolding in_Group by blast
  then obtain L where L: "literal_shape L" "r1 = L @ r2"
    unfolding set_literal by blast
  from 3 obtain b2 w t where b2: "c = c2" "b2 = [] \<or> b2 = ''**''" "is_space w" "r = w # t" "r2 = b2 @ r"
    unfolding set_closing by blast
  from L c2 have "c2 = Some L" by simp
  with b1 L b2 show ?rhs by blast
next
  assume ?rhs
  then obtain b1 L b2 w t where h: "b1 = [] \<or> b1 = ''**''" "literal_shape L" "b2 = [] \<or> b2 = ''**''"
    "is_space w" "r = w # t" "s = b1 @ L @ b2 @ r" "c = Some L"
    by blast
  have 1: "(L @ b2 @ r, g) \<in> set (rmatch (Opt bold) (s, g))"
    unfolding set_opening using h by blast
  have "(b2 @ r, g) \<in> set (rmatch literal (L @ b2 @ r, g))"
    unfolding set_literal using h by blast
  then have 2: "(b2 @ r, Some L) \<in> set (rmatch (Group literal) (L @ b2 @ r, g))"
    unfolding in_Group by (intro exI [of _ g]) simp
  have 3: "(r, c) \<in> set (rmatch closing (b2 @ r, Some L))"
    unfolding set_closing using h by blast
  from 1 2 3 show ?lhs
    unfolding pattern_parts in_Seq by blast
qed


lemma shape_chars: "literal_shape L \<Longrightarrow> \<forall>x \<in> set L. is_digit x \<or> x = CHR '':''"
  unfolding literal_shape_def digits1_def by (auto simp: list_all_iff)

lemma shape_hd: "literal_shape L \<Longrightarrow> \<exists>d L'. is_digit d \<and> L = d # L'"
  unfolding literal_shape_def digits1_def by (cases L) (auto simp: Cons_eq_append_conv)

lemma shape_takeWhile:
  assumes "literal_shape L" "b = [] \<or> b = ''**''" "is_space w"
  shows "takeWhile (\<lambda>x. is_digit x \<or> x = CHR '':'') (L @ b @ w # t) = L"
proof -
  have "takeWhile (\<lambda>x. is_digit x \<or> x = CHR '':'') (b @ w # t) = []"
    using assms(2,3) by (auto dest: space_not_digit)
  with shape_chars [OF assms(1)] show ?thesis
    by (simp add: takeWhile_append2)
qed

lemma pattern_unique:
  assumes "(r, c) \<in> set (rmatch ALL_TIMESTAMPS_PATTERN (s, g))"
    and "(r', c') \<in> set (rmatch ALL_TIMESTAMPS_PATTERN (s, g))"
  shows "r = r' \<and> c = c'"
proof -
  from assms(1) obtain b1 L b2 w t where
    h: "b1 = [] \<or> b1 = ''**''" "literal_shape L" "b2 = [] \<or> b2 = ''**''"
    "is_space w" "r = w # t" "s = b1 @ L @ b2 @ r" "c = Some L"
    unfolding set_pattern by blast
  from assms(2) obtain b1' L' b2' w' t' where
    h': "b1' = [] \<or> b1' = ''**''" "literal_shape L'" "b2' = [] \<or> b2' = ''**''"
    "is_space w'" "r' = w' # t'" "s = b1' @ L' @ b2' @ r'" "c' = Some L'"
    unfolding set_pattern by blast
  from shape_hd [OF h(2)] obtain d M where d: "is_digit d" "L = d # M" by blast
  from shape_hd [OF h'(2)] obtain d' M' where d': "is_digit d'" "L' = d' # M'" by blast
  have "b1 = b1'"
    using h(1,6) h'(1,6) d d' by auto
  with h(6) h'(6) have eq: "L @ b2 @ w # t = L' @ b2' @ w' # t'"
    using h(5) h'(5) by simp
  have "L = takeWhile (\<lambda>x. is_digit x \<or> x = CHR '':'') (L @ b2 @ w # t)"
    using shape_takeWhile [OF h(2,3,4)] by simp
  also have "\<dots> = L'"
    unfolding eq using shape_takeWhile [OF h'(2,3,4)] by simp
  finally have L: "L = L'" .
  with eq have eq2: "b2 @ w # t = b2' @ w' # t'" by simp
  have "w \<noteq> CHR ''*''" "w' \<noteq> CHR ''*''" using h(4) h'(4) by auto
  with eq2 h(3) h'(3) have "b2 = b2'" by auto
  with eq2 L h h' show ?thesis by simp
qed

lemma match_here_iff:
  "(match_here s = Some (m, g, r)) =
   (\<exists>b1 b2 w t. (b1 = [] \<or> b1 = ''**'') \<and> (b2 = [] \<or> b2 = ''**'') \<and> timestamp_grammar g \<and>
      is_space w \<and> m = b1 @ g @ b2 \<and> r = w # t \<and> s = m @ r)"
  (is "?lhs = ?rhs")
proof
  assume ?lhs
  then obtain c rest where l: "rmatch ALL_TIMESTAMPS_PATTERN (s, None) = (r, c) # rest"
    and m: "m = take (length s - length r) s" and g: "g = (case c of None \<Rightarrow> [] | Some x \<Rightarrow> x)"
    by (auto simp: match_here_def split: list.splits)
  then have "(r, c) \<in> set (rmatch ALL_TIMESTAMPS_PATTERN (s, None))" by simp
  then obtain b1 L b2 w t where
    h: "b1 = [] \<or> b1 = ''**''" "literal_shape L" "b2 = [] \<or> b2 = ''**''"
    "is_space w" "r = w # t" "s = b1 @ L @ b2 @ r" "c = Some L"
    unfolding set_pattern by blast
  from h(6) m have "m = b1 @ L @ b2" by simp
  with h g show ?rhs unfolding shape_grammar by (intro exI [of _ b1] exI [of _ b2] exI [of _ w] exI [of _ t]) simp
next
  assume ?rhs
  then obtain b1 b2 w t where h: "b1 = [] \<or> b1 = ''**''" "b2 = [] \<or> b2 = ''**''" "timestamp_grammar g"
    "is_space w" "m = b1 @ g @ b2" "r = w # t" "s = m @ r"
    by blast
  then have in_set: "(r, Some g) \<in> set (rmatch ALL_TIMESTAMPS_PATTERN (s, None))"
    unfolding set_pattern shape_grammar by (intro exI [of _ b1] exI [of _ g] exI [of _ b2] exI [of _ w] exI [of _ t]) simp
  then obtain r0 c0 rest where l: "rmatch ALL_TIMESTAMPS_PATTERN (s, None) = (r0, c0) # rest"
    by (cases "rmatch ALL_TIMESTAMPS_PATTERN (s, None)") auto
  then have "(r0, c0) \<in> set (rmatch ALL_TIMESTAMPS_PATTERN (s, None))" by simp
  from pattern_unique [OF this in_set] have "r0 = r" "c0 = Some g" by simp_all
  with l h show ?lhs by (simp add: match_here_def)
qed

lemma grammar_ne: "timestamp_grammar g \<Longrightarrow> g \<noteq> []"
  by (auto simp: timestamp_grammar_def)

lemma exec_grammar: "exec s = Some (g, r) \<Longrightarrow> timestamp_grammar g"
proof (induction s)
  case Nil
  then show ?case by (auto split: option.splits simp: match_here_iff)
next
  case (Cons c cs)
  then show ?case by (auto split: option.splits simp: match_here_iff)
qed

lemma matches_grammar: "g \<in> set (matches t) \<Longrightarrow> timestamp_grammar g"
proof (induction t rule: matches.induct)
  case (1 t)
  show ?case
  proof (cases "exec t")
    case None
    with 1(2) show ?thesis by (subst (asm) matches.simps) simp
  next
    case (Some p)
    obtain g' r where p: "p = (g', r)" by (cases p)
    from 1(2) Some p have "g = g' \<or> g \<in> set (matches r)"
      by (subst (asm) matches.simps) auto
    then show ?thesis
    proof
      assume "g = g'"
      with Some p exec_grammar show ?thesis by blast
    next
      assume "g \<in> set (matches r)"
      with 1(1) Some p show ?thesis by simp
    qed
  qed
qed


lemma match_here_split: "match_here s = Some (m, g, r) \<Longrightarrow> s = m @ r"
  unfolding match_here_iff by blast

lemma exec_iff:
  "(exec s = Some (g, r)) =
   (\<exists>p m. s = p @ m @ r \<and> match_here (m @ r) = Some (m, g, r) \<and>
      (\<forall>k<length p. match_here (drop k s) = None))"
proof (induction s)
  case Nil
  show ?case
  proof
    assume "exec [] = Some (g, r)"
    then obtain m where m: "match_here [] = Some (m, g, r)" by (auto split: option.splits)
    from match_here_split [OF m] have "m = []" "r = []" by simp_all
    with m show "\<exists>p m. [] = p @ m @ r \<and> match_here (m @ r) = Some (m, g, r) \<and>
      (\<forall>k<length p. match_here (drop k []) = None)"
      by (intro exI [of _ "[]"]) simp
  next
    assume "\<exists>p m. [] = p @ m @ r \<and> match_here (m @ r) = Some (m, g, r) \<and>
      (\<forall>k<length p. match_here (drop k []) = None)"
    then show "exec [] = Some (g, r)" by auto
  qed
next
  case (Cons c cs)
  show ?case
  proof (cases "match_here (c # cs)")
    case (Some x)
    obtain m0 g0 r0 where x: "x = (m0, g0, r0)" by (cases x)
    from Some x match_here_split have s: "c # cs = m0 @ r0" by blast
    show ?thesis
    proof
      assume "exec (c # cs) = Some (g, r)"
      with Some x have "g = g0" "r = r0" by simp_all
      with Some x s show "\<exists>p m. c # cs = p @ m @ r \<and> match_here (m @ r) = Some (m, g, r) \<and>
        (\<forall>k<length p. match_here (drop k (c # cs)) = None)"
        by (intro exI [of _ "[]"] exI [of _ m0]) simp
    next
      assume "\<exists>p m. c # cs = p @ m @ r \<and> match_here (m @ r) = Some (m, g, r) \<and>
        (\<forall>k<length p. match_here (drop k (c # cs)) = None)"
      then obtain p m where h: "c # cs = p @ m @ r" "match_here (m @ r) = Some (m, g, r)"
        "\<forall>k<length p. match_here (drop k (c # cs)) = None" by blast
      have "p = []"
      proof (rule ccontr)
        assume "p \<noteq> []"
        then have "0 < length p" by simp
        with h(3) have "match_here (drop 0 (c # cs)) = None" by blast
        with Some show False by simp
      qed
      with h have "match_here (c # cs) = Some (m, g, r)" by simp
      then show "exec (c # cs) = Some (g, r)" by simp
    qed
  next
    case None
    show ?thesis
    proof
      assume "exec (c # cs) = Some (g, r)"
      with None have "exec cs = Some (g, r)" by simp
      with Cons obtain p m where h: "cs = p @ m @ r" "match_here (m @ r) = Some (m, g, r)"
        "\<forall>k<length p. match_here (drop k cs) = None" by blast
      have "\<forall>k<length (c # p). match_here (drop k (c # cs)) = None"
      proof (intro allI impI)
        fix k assume "k < length (c # p)"
        then show "match_here (drop k (c # cs)) = None"
          using None h(3) by (cases k) simp_all
      qed
      with h show "\<exists>p m. c # cs = p @ m @ r \<and> match_here (m @ r) = Some (m, g, r) \<and>
        (\<forall>k<length p. match_here (drop k (c # cs)) = None)"
        by (intro exI [of _ "c # p"] exI [of _ m]) simp
    next
      assume "\<exists>p m. c # cs = p @ m @ r \<and> match_here (m @ r) = Some (m, g, r) \<and>
        (\<forall>k<length p. match_here (drop k (c # cs)) = None)"
      then obtain p m where h: "c # cs = p @ m @ r" "match_here (m @ r) = Some (m, g, r)"
        "\<forall>k<length p. match_here (drop k (c # cs)) = None" by blast
      have "p \<noteq> []"
      proof
        assume "p = []"
        with h None show False by simp
      qed
      then obtain q where q: "p = c # q" "cs = q @ m @ r" using h(1) by (cases p) auto
      have "\<forall>k<length q. match_here (drop k cs) = None"
      proof (intro allI impI)
        fix k assume "k < length q"
        with q have "Suc k < length p" by simp
        with h(3) have "match_here (drop (Suc k) (c # cs)) = None" by blast
        then show "match_here (drop k cs) = None" by simp
      qed
      with q h(2) Cons have "exec cs = Some (g, r)" by blast
      with None show "exec (c # cs) = Some (g, r)" by simp
    qed
  qed
qed

subsection \<open>Claim about the recogniser\<close>

text \<open>
  Claim C6, amended. One match of the recogniser is exactly: an optional \<open>**\<close>, a literal
  of the grammar (digits only, \<open>m+:ss\<close> or \<open>h+:m+:ss\<close>, the seconds exactly two digits,
  hours and minutes one digit or more), an optional \<open>**\<close>, and then a white-space
  character, which is looked at and not read. Each of the two delimiters is optional on
  its own. The literal is the capture of group 1. The white space is required: a literal
  at the very end of the text is not matched. Scanning a text, the recogniser returns the
  match at the first position that has one.
\<close>

theorem recogniser_grammar:
  "((match_here s = Some (m, g, r)) =
      (\<exists>b1 b2 w t. (b1 = [] \<or> b1 = ''**'') \<and> (b2 = [] \<or> b2 = ''**'') \<and> timestamp_grammar g \<and>
         is_space w \<and> m = b1 @ g @ b2 \<and> r = w # t \<and> s = m @ r))
   \<and> ((exec s = Some (g, r)) =
      (\<exists>p m. s = p @ m @ r \<and> match_here (m @ r) = Some (m, g, r) \<and>
         (\<forall>k<length p. match_here (drop k s) = None)))"
  using match_here_iff [of s m g r] exec_iff [of s g r] by blast

theorem recogniser_grammar_witness:
  "match_here ''**02:10** hello'' = Some (''**02:10**'', ''02:10'', '' hello'')
   \<and> exec ''at 1:02:03 x'' = Some (''1:02:03'', '' x'')"
proof -
  have g: "timestamp_grammar ''02:10''" "is_space (CHR '' '')" by code_simp+
  have "\<exists>b1 b2 w t. (b1 = [] \<or> b1 = ''**'') \<and> (b2 = [] \<or> b2 = ''**'') \<and> timestamp_grammar ''02:10'' \<and>
         is_space w \<and> ''**02:10**'' = b1 @ ''02:10'' @ b2 \<and> '' hello'' = w # t
         \<and> ''**02:10** hello'' = ''**02:10**'' @ '' hello''"
    using g by (intro exI [of _ "''**''"] exI [of _ "CHR '' ''"] exI [of _ "''hello''"]) simp
  with recogniser_grammar [of "''**02:10** hello''" "''**02:10**''" "''02:10''" "'' hello''"]
  have 1: "match_here ''**02:10** hello'' = Some (''**02:10**'', ''02:10'', '' hello'')" by blast
  have m: "match_here (''1:02:03'' @ '' x'') = Some (''1:02:03'', ''1:02:03'', '' x'')" by code_simp
  have n: "\<forall>k<length ''at ''. match_here (drop k ''at 1:02:03 x'') = None"
  proof (intro allI impI)
    fix k :: nat assume "k < length ''at ''"
    then consider "k = 0" | "k = 1" | "k = 2" by fastforce
    then show "match_here (drop k ''at 1:02:03 x'') = None"
    proof cases
      case 1
      have "match_here (drop 0 ''at 1:02:03 x'') = None" by code_simp
      with 1 show ?thesis by simp
    next
      case 2
      have "match_here (drop 1 ''at 1:02:03 x'') = None" by code_simp
      with 2 show ?thesis by simp
    next
      case 3
      have "match_here (drop 2 ''at 1:02:03 x'') = None" by code_simp
      with 3 show ?thesis by simp
    qed
  qed
  have "\<exists>p m. ''at 1:02:03 x'' = p @ m @ '' x'' \<and> match_here (m @ '' x'') = Some (m, ''1:02:03'', '' x'') \<and>
         (\<forall>k<length p. match_here (drop k ''at 1:02:03 x'') = None)"
    using m n by (intro exI [of _ "''at ''"] exI [of _ "''1:02:03''"]) simp
  with recogniser_grammar [of "''at 1:02:03 x''" _ "''1:02:03''" "'' x''"]
  have 2: "exec ''at 1:02:03 x'' = Some (''1:02:03'', '' x'')" by blast
  show ?thesis by (intro conjI) (rule 1 2)+
qed

text \<open>
  Claim C6 as stated fails: \<open>02:10\<close> is a literal of the grammar, and when it ends the
  text the recogniser does not match it.
\<close>

theorem recogniser_end_of_text:
  "timestamp_grammar ''02:10'' \<and> match_here ''02:10'' = None \<and> exec ''02:10'' = None
   \<and> matches ''02:10'' = [] \<and> matches ''02:10 '' = [''02:10'']"
  by code_simp

subsection \<open>Claims about the timestamp parser\<close>

text \<open>
  Claim C7. \<open>parseTimestamp\<close> splits its input at the colons, reads each piece as a
  number and returns \<open>h*3600 + m*60 + s\<close> for three pieces and \<open>m*60 + s\<close> for two;
  \<open>parseTimestamp "1:02:03" = 3723\<close>, \<open>parseTimestamp "02:03" = 123\<close>,
  \<open>parseTimestamp "00:00" = 0\<close>; for every literal of the grammar the result is a number
  that is not negative. The result is a function of the literal alone: the definition
  reads no state.
\<close>
theorem parseTimestamp_spec:
  "(split_colon t = [h, m, s] \<longrightarrow>
      parseTimestamp t =
        num_add (num_add (num_mul (js_Number h) (Some 3600)) (num_mul (js_Number m) (Some 60)))
          (js_Number s))
   \<and> (split_colon t = [m, s] \<longrightarrow>
      parseTimestamp t = num_add (num_mul (js_Number m) (Some 60)) (js_Number s))
   \<and> parseTimestamp ''1:02:03'' = Some 3723
   \<and> parseTimestamp ''02:03'' = Some 123
   \<and> parseTimestamp ''00:00'' = Some 0
   \<and> (timestamp_grammar L \<longrightarrow> (\<exists>n. parseTimestamp L = Some n \<and> 0 \<le> n))"
proof -
  have a: "parseTimestamp ''1:02:03'' = Some 3723" by code_simp
  have b: "parseTimestamp ''02:03'' = Some 123" by code_simp
  have c: "parseTimestamp ''00:00'' = Some 0" by code_simp
  show ?thesis
    using a b c parseTimestamp_three [of t h m s] parseTimestamp_two [of t m s]
      parseTimestamp_grammar [of L]
    by blast
qed

theorem parseTimestamp_spec_witness:
  "split_colon ''1:02:03'' = [''1'', ''02'', ''03''] \<and> split_colon ''02:03'' = [''02'', ''03'']
   \<and> timestamp_grammar ''12:34:56''
   \<and> parseTimestamp ''1:02:03'' =
        num_add (num_add (num_mul (js_Number ''1'') (Some 3600)) (num_mul (js_Number ''02'') (Some 60)))
          (js_Number ''03'')
   \<and> parseTimestamp ''02:03'' = num_add (num_mul (js_Number ''02'') (Some 60)) (js_Number ''03'')
   \<and> (\<exists>n. parseTimestamp ''12:34:56'' = Some n \<and> 0 \<le> n)"
proof -
  have s3: "split_colon ''1:02:03'' = [''1'', ''02'', ''03'']" by simp
  have s2: "split_colon ''02:03'' = [''02'', ''03'']" by simp
  have g: "timestamp_grammar ''12:34:56''" by code_simp
  show ?thesis
    using s3 s2 g
      parseTimestamp_spec [of "''1:02:03''" "''1''" "''02''" "''03''" "''12:34:56''"]
      parseTimestamp_spec [of "''02:03''" _ "''02''" "''03''" "''12:34:56''"]
    by blast
qed





section \<open>Facts about the document operations\<close>

lemma sum_list_concat_map:
  "sum_list (map f (concat (map g xs))) = sum_list (map (\<lambda>x. sum_list (map f (g x))) xs)"
  by (induction xs) simp_all

lemma filter_elements_count: "length (filter (has_id x) (elements n)) = count_id x n"
proof (induction n)
  case (Text i s)
  then show ?case by simp
next
  case (Element i a cs)
  have "length (filter (has_id x) (concat (map elements cs))) = sum_list (map (count_id x) cs)"
    using Element.IH by (induction cs) simp_all
  then show ?case by simp
qed

lemma style_count_sum:
  "style_count d = sum_list (map (count_id ''yts-styles'') (head d @ body d))"
proof -
  have "length (filter (has_id x) (concat (map elements ns))) = sum_list (map (count_id x) ns)" for x ns
    by (induction ns) (simp_all add: filter_elements_count)
  then show ?thesis by (simp add: style_count_def all_elements_def)
qed

lemma count_replace_text:
  assumes "sum_list (map (count_id x) frag) = 0"
  shows "sum_list (map (count_id x) (replace_text n frag k)) = count_id x k"
proof (induction k)
  case (Text i s)
  with assms show ?case by simp
next
  case (Element i a cs)
  have "sum_list (map (\<lambda>c. sum_list (map (count_id x) (replace_text n frag c))) cs)
      = sum_list (map (count_id x) cs)"
    using Element.IH by (induction cs) simp_all
  then show ?case by (simp add: sum_list_concat_map)
qed

lemma count_replace_forest:
  assumes "sum_list (map (count_id x) frag) = 0"
  shows "sum_list (map (count_id x) (concat (map (replace_text n frag) ks))) = sum_list (map (count_id x) ks)"
  by (induction ks) (simp_all add: count_replace_text [OF assms])

lemma style_count_replaceChild:
  assumes "sum_list (map (count_id ''yts-styles'') frag) = 0"
  shows "style_count (replaceChild frag n d) = style_count d"
  by (simp add: style_count_sum replaceChild_def count_replace_forest [OF assms])

lemma style_count_next_id [simp]: "style_count (d\<lparr>next_id := k\<rparr>) = style_count d"
  by (simp add: style_count_def all_elements_def)

lemma style_count_wrap: "style_count (wrap_occurrence c t s e d) = style_count d"
proof -
  obtain n nodeText idx where e: "e = (n, nodeText, idx)" by (cases e)
  show ?thesis
    unfolding wrap_occurrence_def e
    by (simp add: Let_def style_count_replaceChild timestampSpan_def split: option.splits)
qed

lemma foldl_keeps:
  assumes "\<And>s x. g (f s x) = g s"
  shows "g (foldl f s xs) = g s"
  by (induction xs arbitrary: s) (simp_all add: assms)

lemma style_count_timestamp: "style_count (process_timestamp c b m d) = style_count d"
proof -
  obtain t s where m: "m = (t, s)" by (cases m)
  show ?thesis
    unfolding process_timestamp_def m
    by (simp add: foldl_keeps [where g = style_count] style_count_wrap split: option.splits)
qed

lemma style_count_container: "style_count (process_container c d) = style_count d"
  unfolding process_container_def
  by (simp add: foldl_keeps [where g = style_count] style_count_timestamp split: option.splits)

lemma style_count_pass: "style_count (addTimestampButtons d) = style_count d"
  unfolding addTimestampButtons_def
  by (rule foldl_keeps) (rule style_count_container)

lemma find_Some_member: "List.find P xs = Some x \<Longrightarrow> x \<in> set xs \<and> P x"
  by (induction xs) (auto split: if_splits)

section \<open>Facts about the watcher\<close>

lemma callback_fields [simp]:
  "dom (observer_callback m st) = dom st"
  "observers (observer_callback m st) = observers st"
  "next_observer (observer_callback m st) = next_observer st"
  "YTSObserver (observer_callback m st) = YTSObserver st"
  "now (observer_callback m st) = now st"
  by (simp_all add: observer_callback_def Let_def)

lemma callback_timers: "\<exists>new. timers (observer_callback m st) = timers st @ new"
  by (simp add: observer_callback_def Let_def)

lemma callbacks_fields:
  "dom (foldl (\<lambda>st ob. observer_callback m st) st obs) = dom st
   \<and> observers (foldl (\<lambda>st ob. observer_callback m st) st obs) = observers st
   \<and> next_observer (foldl (\<lambda>st ob. observer_callback m st) st obs) = next_observer st
   \<and> YTSObserver (foldl (\<lambda>st ob. observer_callback m st) st obs) = YTSObserver st
   \<and> now (foldl (\<lambda>st ob. observer_callback m st) st obs) = now st"
  by (induction obs arbitrary: st) simp_all

lemma callbacks_timers:
  "\<exists>new. timers (foldl (\<lambda>st ob. observer_callback m st) st obs) = timers st @ new"
proof (induction obs arbitrary: st)
  case Nil
  then show ?case by simp
next
  case (Cons ob obs)
  from callback_timers [of m st] obtain a where a: "timers (observer_callback m st) = timers st @ a"
    by blast
  from Cons [of "observer_callback m st"] obtain b where
    "timers (foldl (\<lambda>st ob. observer_callback m st) (observer_callback m st) obs)
      = timers (observer_callback m st) @ b" by blast
  with a show ?case by simp
qed

lemma deliver_fields [simp]:
  "dom (deliver m st) = dom st"
  "observers (deliver m st) = observers st"
  "next_observer (deliver m st) = next_observer st"
  "YTSObserver (deliver m st) = YTSObserver st"
  "now (deliver m st) = now st"
  by (simp_all add: deliver_def callbacks_fields)

lemma deliver_timers: "\<exists>new. timers (deliver m st) = timers st @ new"
  by (simp add: deliver_def callbacks_timers)

lemma deliver_nothing [simp]: "deliver [] st = st"
  by (simp add: deliver_def)

lemma run_pass_fields [simp]:
  "dom (run_pass st) = addTimestampButtons (dom st)"
  "observers (run_pass st) = observers st"
  "next_observer (run_pass st) = next_observer st"
  "YTSObserver (run_pass st) = YTSObserver st"
  by (simp_all add: run_pass_def Let_def)

lemma style_count_append_style:
  "style_count (d\<lparr>head := head d @ [style_element i]\<rparr>) = style_count d + 1"
  by (simp add: style_count_sum style_element_def)

lemma init_observers:
  "observers (initTimestampObserver st) = observers st @ [next_observer st]"
  by (simp add: initTimestampObserver_def Let_def)

lemma init_YTSObserver:
  "YTSObserver (initTimestampObserver st) = Some (next_observer st)"
  by (simp add: initTimestampObserver_def Let_def)

lemma init_style_count:
  "style_count (dom (initTimestampObserver st)) = style_count (dom st) + 1"
  by (simp add: initTimestampObserver_def Let_def style_count_pass style_count_append_style)

subsection \<open>Claim about starting twice\<close>

text \<open>
  Claim C3, amended. Every call of \<open>initTimestampObserver\<close> adds one observer of
  \<open>document.body\<close> and one style element with the id \<open>yts-styles\<close>, and stores the new
  observer in \<open>window.YTSObserver\<close>. Started from the stopped state (no observer, no such
  style element) the watcher has exactly one observer and one style element. The code
  neither rejects a second start nor stops the first instance.
\<close>

theorem start_adds_one:
  "observers (initTimestampObserver st) = observers st @ [next_observer st]
   \<and> YTSObserver (initTimestampObserver st) = Some (next_observer st)
   \<and> style_count (dom (initTimestampObserver st)) = style_count (dom st) + 1
   \<and> (observers st = [] \<and> style_count (dom st) = 0 \<longrightarrow>
        length (observers (initTimestampObserver st)) = 1
        \<and> style_count (dom (initTimestampObserver st)) = 1)"
  by (simp add: init_observers init_YTSObserver init_style_count)

theorem start_adds_one_witness:
  "observers (stopped (one_block ''02:10 hello'')) = []
   \<and> style_count (dom (stopped (one_block ''02:10 hello''))) = 0
   \<and> length (observers (initTimestampObserver (stopped (one_block ''02:10 hello'')))) = 1
   \<and> style_count (dom (initTimestampObserver (stopped (one_block ''02:10 hello'')))) = 1"
proof -
  have 1: "observers (stopped (one_block ''02:10 hello'')) = []" by code_simp
  have 2: "style_count (dom (stopped (one_block ''02:10 hello''))) = 0" by code_simp
  from start_adds_one [of "stopped (one_block ''02:10 hello'')"] 1 2
  have 3: "length (observers (initTimestampObserver (stopped (one_block ''02:10 hello'')))) = 1"
    and 4: "style_count (dom (initTimestampObserver (stopped (one_block ''02:10 hello'')))) = 1"
    by blast+
  show ?thesis by (intro conjI) (rule 1 2 3 4)+
qed

text \<open>
  Claim C3 as stated fails: after two starts in a row two observers are observing and two
  style elements are installed.
\<close>

theorem start_twice_two_observers:
  "observers (initTimestampObserver (initTimestampObserver (stopped (one_block ''02:10 hello'')))) = [0, 1]
   \<and> YTSObserver (initTimestampObserver (initTimestampObserver (stopped (one_block ''02:10 hello'')))) = Some 1
   \<and> style_count (dom (initTimestampObserver (initTimestampObserver (stopped (one_block ''02:10 hello''))))) = 2"
  by code_simp

section \<open>The pass on a text node that holds a timestamp twice\<close>

text \<open>
  Claim C5 fails on the code. The block text is the single text node
  \<open>**02:10** hello **02:10** world\<close>. The pass records both positions of \<open>02:10\<close> and
  walks them in reverse, but each round looks the position up again with
  \<open>indexOf(timestamp)\<close>, which is the first one, and after the first round the text node
  is no longer in the document, so the second round's \<open>replaceChild\<close> does nothing. One
  marker results; the second \<open>02:10\<close> stays in the text node after it.
\<close>

theorem pass_wraps_one_of_two:
  "nodesToProcess ''02:10'' (Element 2 (plain ''span'' [''rm-block-text''])
       [Text 3 ''**02:10** hello **02:10** world''])
     = [(3, ''**02:10** hello **02:10** world'', 2), (3, ''**02:10** hello **02:10** world'', 18)]
   \<and> body (addTimestampButtons (one_block ''**02:10** hello **02:10** world'')) =
       [Element 1 (plain ''div'' [''roam-block-container''])
         [Element 2 (plain ''span'' [''rm-block-text''])
           [Text 6 ''**'',
            timestampSpan 4 1 ''02:10'' (Some 130),
            Text 7 ''** hello **02:10** world'']]]
   \<and> length (markers (addTimestampButtons (one_block ''**02:10** hello **02:10** world''))) = 1"
  by code_simp

text \<open>
  Claim C1 fails on the code, by the same defect: the first pass leaves the second
  occurrence unwrapped and the second pass wraps it, so the second pass changes the
  document. The third pass changes nothing.
\<close>

theorem pass_twice_differs:
  "map textContent (markers (addTimestampButtons (one_block ''02:10 a 02:10 b''))) = [''02:10'']
   \<and> map textContent (markers (addTimestampButtons (addTimestampButtons (one_block ''02:10 a 02:10 b''))))
       = [''02:10'', ''02:10'']
   \<and> body (addTimestampButtons (addTimestampButtons (one_block ''02:10 a 02:10 b'')))
       \<noteq> body (addTimestampButtons (one_block ''02:10 a 02:10 b''))
   \<and> body (addTimestampButtons (addTimestampButtons (addTimestampButtons (one_block ''02:10 a 02:10 b''))))
       = body (addTimestampButtons (addTimestampButtons (one_block ''02:10 a 02:10 b'')))"
  by code_simp

text \<open>
  Where every text node holds the timestamp once, the pass wraps every occurrence, each
  marker carries the seconds, and a second pass changes nothing.
\<close>

lemma pass_on_two_text_nodes:
  "body (addTimestampButtons two_lines) =
     [Element 1 (plain ''div'' [''roam-block-container''])
       [Element 2 (plain ''span'' [''rm-block-text''])
         [timestampSpan 10 1 ''02:10'' (Some 130), Text 13 '' hello'',
          Element 4 (plain ''br'' []) [],
          timestampSpan 6 1 ''02:10'' (Some 130), Text 9 '' world'']]]
   \<and> body (addTimestampButtons (addTimestampButtons two_lines)) = body (addTimestampButtons two_lines)
   \<and> body (addTimestampButtons (addTimestampButtons (one_block ''02:10 hello'')))
       = body (addTimestampButtons (one_block ''02:10 hello''))"
  by code_simp

section \<open>The watcher on a burst of notifications\<close>

text \<open>
  Claim C2 fails on the code. After a start, two notifications that each report an added
  node arrive at 10 ms and at 50 ms. The callback sets a timer for each and cancels none:
  two timers are pending, due at 110 ms and at 150 ms, and each of them runs a pass when
  it fires.
\<close>

theorem burst_sets_a_timer_each:
  "timers (host_mutation 50 [added_node] (host_mutation 10 [added_node]
      (initTimestampObserver (stopped (one_block ''02:10 hello''))))) = [110, 150]
   \<and> timers (fire_timer (host_mutation 50 [added_node] (host_mutation 10 [added_node]
      (initTimestampObserver (stopped (one_block ''02:10 hello'')))))) = [150]
   \<and> now (fire_timer (host_mutation 50 [added_node] (host_mutation 10 [added_node]
      (initTimestampObserver (stopped (one_block ''02:10 hello'')))))) = 110
   \<and> now (fire_timer (fire_timer (host_mutation 50 [added_node] (host_mutation 10 [added_node]
      (initTimestampObserver (stopped (one_block ''02:10 hello''))))))) = 150"
  by code_simp

text \<open>
  In general, with one observer observing, every notification that reports an added node
  adds one timer, and nothing but its firing takes a timer away: a burst of \<open>N\<close>
  notifications leaves \<open>N\<close> more timers pending.
\<close>

lemma notification_sets_timer:
  assumes "observers st = [ob]"
  shows "timers (host_mutation t [added_node] st) = timers st @ [max (now st) t + 100]"
    and "observers (host_mutation t [added_node] st) = [ob]"
  using assms
  by (simp_all add: host_mutation_def deliver_def observer_callback_def added_node_def Let_def)

lemma burst_timers:
  assumes "observers st = [ob]"
  shows "length (timers (foldl (\<lambda>st t. host_mutation t [added_node] st) st ts))
    = length (timers st) + length ts"
  using assms
proof (induction ts arbitrary: st)
  case Nil
  then show ?case by simp
next
  case (Cons t ts)
  from notification_sets_timer [OF Cons.prems, of t]
  have "observers (host_mutation t [added_node] st) = [ob]"
    and "length (timers (host_mutation t [added_node] st)) = length (timers st) + 1"
    by simp_all
  with Cons.IH [of "host_mutation t [added_node] st"] show ?case by simp
qed

section \<open>Facts about the teardown\<close>

lemma class_ids_elements: "node_id ` set (filter (has_class c) (elements x)) = class_ids c x"
proof (induction x)
  case (Text i s)
  then show ?case by simp
next
  case (Element i a cs)
  have "node_id ` set (filter (has_class c) (concat (map elements cs))) = (\<Union>k \<in> set cs. class_ids c k)"
    using Element.IH by (induction cs) (simp_all add: image_Un)
  then show ?case by (auto simp: image_Un)
qed

lemma forest_ids_markers: "node_id ` set (querySelectorAll_class c d) = forest_ids c d"
proof -
  have "node_id ` set (filter (has_class c) (concat (map elements ns))) = (\<Union>k \<in> set ns. class_ids c k)" for ns
    by (induction ns) (simp_all add: image_Un class_ids_elements [simplified])
  then show ?thesis
    unfolding querySelectorAll_class_def all_elements_def forest_ids_def by blast
qed

lemma class_ids_unwrap: "(\<Union>k \<in> set (unwrap n t x). class_ids c k) \<subseteq> class_ids c x - {n}"
proof (induction x)
  case (Text i s)
  then show ?case by simp
next
  case (Element i a cs)
  show ?case
  proof (cases "i = n")
    case True
    then show ?thesis by simp
  next
    case False
    have "(\<Union>k \<in> set (concat (map (unwrap n t) cs)). class_ids c k) \<subseteq> (\<Union>k \<in> set cs. class_ids c k) - {n}"
      using Element.IH by fastforce
    with False show ?thesis by auto
  qed
qed

lemma forest_ids_replaceWith: "forest_ids c (replaceWith_text n d) \<subseteq> forest_ids c d - {n}"
proof -
  have "(\<Union>k \<in> set (concat (map (unwrap n t) ns)). class_ids c k) \<subseteq> (\<Union>k \<in> set ns. class_ids c k) - {n}"
    for t ns
    using class_ids_unwrap [where n = n and t = t and c = c] by fastforce
  moreover have "head (replaceWith_text n d) @ body (replaceWith_text n d)
      = concat (map (unwrap n (next_id d)) (head d @ body d))"
    by (simp add: replaceWith_text_def)
  ultimately show ?thesis
    unfolding forest_ids_def by presburger
qed

lemma forest_ids_unwrap_all:
  "forest_ids c (foldl (\<lambda>d span. replaceWith_text span d) d ns) \<subseteq> forest_ids c d - set ns"
proof (induction ns arbitrary: d)
  case Nil
  then show ?case by simp
next
  case (Cons n ns)
  from Cons [of "replaceWith_text n d"] forest_ids_replaceWith [of c n d]
  show ?case by auto
qed

lemma no_markers_left:
  "markers (foldl (\<lambda>d span. replaceWith_text span d) d (map node_id (markers d))) = []"
proof -
  let ?d = "foldl (\<lambda>d span. replaceWith_text span d) d (map node_id (markers d))"
  have "forest_ids ''yts-timestamp'' ?d \<subseteq> forest_ids ''yts-timestamp'' d - set (map node_id (markers d))"
    by (rule forest_ids_unwrap_all)
  also have "set (map node_id (markers d)) = forest_ids ''yts-timestamp'' d"
    by (simp add: markers_def forest_ids_markers)
  finally have "forest_ids ''yts-timestamp'' ?d = {}" by simp
  then have "node_id ` set (markers ?d) = {}"
    by (simp add: markers_def forest_ids_markers)
  then show ?thesis by simp
qed

lemma text_unwrap: "concat (map textContent (unwrap n t x)) = textContent x"
proof (induction x)
  case (Text i s)
  then show ?case by simp
next
  case (Element i a cs)
  have "concat (map textContent (concat (map (unwrap n t) cs))) = concat (map textContent cs)"
    using Element.IH by (induction cs) simp_all
  then show ?case by simp
qed

lemma body_text_replaceWith: "body_text (replaceWith_text n d) = body_text d"
proof -
  have "concat (map textContent (concat (map (unwrap n t) ns))) = concat (map textContent ns)" for t ns
    by (induction ns) (simp_all add: text_unwrap)
  then show ?thesis by (simp add: body_text_def replaceWith_text_def)
qed

lemma body_text_unwrap_all:
  "body_text (foldl (\<lambda>d span. replaceWith_text span d) d ns) = body_text d"
  by (rule foldl_keeps) (rule body_text_replaceWith)

lemma count_unwrap: "sum_list (map (count_id x) (unwrap n t k)) \<le> count_id x k"
proof (induction k)
  case (Text i s)
  then show ?case by simp
next
  case (Element i a cs)
  have "sum_list (map (\<lambda>c. sum_list (map (count_id x) (unwrap n t c))) cs) \<le> sum_list (map (count_id x) cs)"
    using Element.IH by (induction cs) (simp_all add: add_mono)
  then show ?case by (simp add: sum_list_concat_map)
qed

lemma style_count_replaceWith: "style_count (replaceWith_text n d) \<le> style_count d"
proof -
  have "sum_list (map (count_id x) (concat (map (unwrap n t) ns))) \<le> sum_list (map (count_id x) ns)"
    for x t ns
    by (induction ns) (simp_all add: add_mono count_unwrap)
  then show ?thesis
    by (simp add: style_count_sum replaceWith_text_def add_mono)
qed

lemma style_count_unwrap_all:
  "style_count (foldl (\<lambda>d span. replaceWith_text span d) d ns) \<le> style_count d"
proof (induction ns arbitrary: d)
  case Nil
  then show ?case by simp
next
  case (Cons n ns)
  from Cons [of "replaceWith_text n d"] style_count_replaceWith [of n d]
  show ?case by simp
qed

lemma count_remove_le: "sum_list (map (count_id x) (remove_element n k)) \<le> count_id x k"
proof (induction k)
  case (Text i s)
  then show ?case by simp
next
  case (Element i a cs)
  have "sum_list (map (\<lambda>c. sum_list (map (count_id x) (remove_element n c))) cs) \<le> sum_list (map (count_id x) cs)"
    using Element.IH by (induction cs) (simp_all add: add_mono)
  then show ?case by (simp add: sum_list_concat_map)
qed

lemma count_remove_forest_le:
  "sum_list (map (count_id x) (concat (map (remove_element n) ks))) \<le> sum_list (map (count_id x) ks)"
  by (induction ks) (simp_all add: add_mono count_remove_le)

lemma count_remove_less:
  "e \<in> set (elements k) \<Longrightarrow> has_id x e \<Longrightarrow>
   sum_list (map (count_id x) (remove_element (node_id e) k)) < count_id x k"
proof (induction k)
  case (Text i s)
  then show ?case by simp
next
  case (Element i a cs)
  show ?case
  proof (cases "e = Element i a cs")
    case True
    with Element.prems show ?thesis by simp
  next
    case False
    with Element.prems obtain c where c: "c \<in> set cs" "e \<in> set (elements c)" by auto
    show ?thesis
    proof (cases "i = node_id e")
      case True
      from c Element.IH Element.prems(2)
      have "sum_list (map (count_id x) (remove_element (node_id e) c)) < count_id x c" by blast
      then have "0 < count_id x c" by simp
      with c(1) have "0 < sum_list (map (count_id x) cs)"
        by (induction cs) auto
      with True show ?thesis by simp
    next
      case ne: False
      have "c \<in> set cs \<Longrightarrow>
          sum_list (map (count_id x) (remove_element (node_id e) c)) < count_id x c \<Longrightarrow>
          sum_list (map (\<lambda>c. sum_list (map (count_id x) (remove_element (node_id e) c))) cs)
            < sum_list (map (count_id x) cs)"
      proof (induction cs)
        case Nil
        then show ?case by simp
      next
        case (Cons b bs)
        show ?case
        proof (cases "c = b")
          case True
          with Cons.prems(2) count_remove_forest_le [of x "node_id e" bs]
          show ?thesis by (simp add: sum_list_concat_map)
        next
          case False
          with Cons have "sum_list (map (\<lambda>c. sum_list (map (count_id x) (remove_element (node_id e) c))) bs)
            < sum_list (map (count_id x) bs)" by simp
          with count_remove_le [of x "node_id e" b] show ?thesis by simp
        qed
      qed
      with c Element.IH Element.prems(2) ne show ?thesis
        by (simp add: sum_list_concat_map)
    qed
  qed
qed

lemma style_count_remove_styles: "style_count (remove_styles d) \<le> style_count d - 1"
proof (cases "getElementById ''yts-styles'' d")
  case None
  then have "filter (has_id ''yts-styles'') (all_elements d) = []"
    by (simp add: getElementById_def find_None_iff filter_empty_conv)
  with None show ?thesis by (simp add: remove_styles_def style_count_def)
next
  case (Some e)
  then have e: "e \<in> set (all_elements d)" "has_id ''yts-styles'' e"
    by (auto simp: getElementById_def dest: find_Some_member)
  then obtain k where k: "k \<in> set (head d @ body d)" "e \<in> set (elements k)"
    by (auto simp: all_elements_def)
  have "k \<in> set ks \<Longrightarrow>
      sum_list (map (count_id ''yts-styles'') (concat (map (remove_element (node_id e)) ks)))
        < sum_list (map (count_id ''yts-styles'') ks)" for ks
  proof (induction ks)
    case Nil
    then show ?case by simp
  next
    case (Cons b bs)
    show ?case
    proof (cases "k = b")
      case True
      with count_remove_less [OF k(2) e(2)] count_remove_forest_le [of "''yts-styles''" "node_id e" bs]
      show ?thesis by simp
    next
      case False
      with Cons count_remove_le [of "''yts-styles''" "node_id e" b] show ?thesis by simp
    qed
  qed
  from this [OF k(1)] have "style_count (remove_node (node_id e) d) < style_count d"
    by (simp add: style_count_sum remove_node_def)
  with Some show ?thesis by (simp add: remove_styles_def)
qed

lemma cleanup_dom:
  "dom (cleanupTimestampObserver st) =
     foldl (\<lambda>d span. replaceWith_text span d) (remove_styles (dom st))
       (map node_id (markers (remove_styles (dom st))))"
  by (cases "YTSObserver st") (simp_all add: cleanupTimestampObserver_def Let_def markers_def)

lemma cleanup_YTSObserver: "YTSObserver (cleanupTimestampObserver st) = None"
  by (cases "YTSObserver st") (simp_all add: cleanupTimestampObserver_def Let_def)

lemma cleanup_observers:
  "observers (cleanupTimestampObserver st) =
     (case YTSObserver st of Some ob \<Rightarrow> removeAll ob (observers st) | None \<Rightarrow> observers st)"
  by (cases "YTSObserver st") (simp_all add: cleanupTimestampObserver_def Let_def)

lemma cleanup_timers: "\<exists>new. timers (cleanupTimestampObserver st) = timers st @ new"
proof (cases "YTSObserver st")
  case None
  then show ?thesis
    using deliver_timers [of _ "st\<lparr>dom := dom (cleanupTimestampObserver st)\<rparr>"]
    by (simp add: cleanupTimestampObserver_def Let_def cleanup_dom markers_def)
next
  case (Some ob)
  then show ?thesis
    using deliver_timers [of _ "st\<lparr>observers := removeAll ob (observers st), YTSObserver := None,
      dom := dom (cleanupTimestampObserver st)\<rparr>"]
    by (simp add: cleanupTimestampObserver_def Let_def cleanup_dom markers_def)
qed

lemma cleanup_markers: "markers (dom (cleanupTimestampObserver st)) = []"
  unfolding cleanup_dom by (rule no_markers_left)

lemma cleanup_text:
  "body_text (dom (cleanupTimestampObserver st)) = body_text (remove_styles (dom st))"
  unfolding cleanup_dom by (rule body_text_unwrap_all)

lemma cleanup_styles:
  "style_count (dom (cleanupTimestampObserver st)) \<le> style_count (dom st) - 1"
  unfolding cleanup_dom
  using style_count_unwrap_all [of "remove_styles (dom st)"] style_count_remove_styles [of "dom st"]
  by (rule order_trans)

lemma cleanup_fixed:
  assumes "YTSObserver st = None" "style_count (dom st) = 0" "markers (dom st) = []"
  shows "cleanupTimestampObserver st = st"
proof -
  from assms(2) have "getElementById ''yts-styles'' (dom st) = None"
    by (simp add: style_count_def getElementById_def find_None_iff filter_empty_conv)
  then have "remove_styles (dom st) = dom st" by (simp add: remove_styles_def)
  with assms(1,3) show ?thesis
    by (simp add: cleanupTimestampObserver_def Let_def markers_def own_mutations_def)
qed

lemma cleanup_twice:
  assumes "style_count (dom st) \<le> 1"
  shows "cleanupTimestampObserver (cleanupTimestampObserver st) = cleanupTimestampObserver st"
proof (rule cleanup_fixed)
  show "YTSObserver (cleanupTimestampObserver st) = None" by (rule cleanup_YTSObserver)
  from cleanup_styles [of st] assms show "style_count (dom (cleanupTimestampObserver st)) = 0"
    by simp
  show "markers (dom (cleanupTimestampObserver st)) = []" by (rule cleanup_markers)
qed

subsection \<open>Claim about stopping\<close>

text \<open>
  Claim C4, amended. \<open>cleanupTimestampObserver\<close> returns for every state (it has no error
  path). After it \<open>window.YTSObserver\<close> is cleared and that observer no longer observes,
  no marker element is left in the document, and the text of the body is the text it had
  once the style element was taken out: every marker has given way to a text node with
  its text. One style element with the id \<open>yts-styles\<close> is removed. A second stop in a row
  changes nothing (when at most one such style element was installed). Timers that were
  pending stay pending: stop cancels none of them, so a pass that was scheduled before the
  stop still runs after it.
\<close>

theorem stop_teardown:
  "YTSObserver (cleanupTimestampObserver st) = None
   \<and> observers (cleanupTimestampObserver st) =
       (case YTSObserver st of Some ob \<Rightarrow> removeAll ob (observers st) | None \<Rightarrow> observers st)
   \<and> markers (dom (cleanupTimestampObserver st)) = []
   \<and> body_text (dom (cleanupTimestampObserver st)) = body_text (remove_styles (dom st))
   \<and> style_count (dom (cleanupTimestampObserver st)) \<le> style_count (dom st) - 1
   \<and> (\<exists>new. timers (cleanupTimestampObserver st) = timers st @ new)
   \<and> (style_count (dom st) \<le> 1 \<longrightarrow>
        cleanupTimestampObserver (cleanupTimestampObserver st) = cleanupTimestampObserver st)"
  using cleanup_YTSObserver [of st] cleanup_observers [of st] cleanup_markers [of st]
    cleanup_text [of st] cleanup_styles [of st] cleanup_timers [of st] cleanup_twice [of st]
  by blast

theorem stop_teardown_witness:
  "style_count (dom (initTimestampObserver (stopped (one_block ''02:10 hello'')))) \<le> 1
   \<and> map textContent (markers (dom (initTimestampObserver (stopped (one_block ''02:10 hello''))))) = [''02:10'']
   \<and> markers (dom (cleanupTimestampObserver (initTimestampObserver (stopped (one_block ''02:10 hello''))))) = []
   \<and> observers (cleanupTimestampObserver (initTimestampObserver (stopped (one_block ''02:10 hello'')))) = []
   \<and> cleanupTimestampObserver (cleanupTimestampObserver (initTimestampObserver (stopped (one_block ''02:10 hello''))))
       = cleanupTimestampObserver (initTimestampObserver (stopped (one_block ''02:10 hello'')))"
proof -
  let ?st = "initTimestampObserver (stopped (one_block ''02:10 hello''))"
  have 1: "style_count (dom ?st) \<le> 1" by code_simp
  have 2: "map textContent (markers (dom ?st)) = [''02:10'']" by code_simp
  have 3: "YTSObserver ?st = Some 0" "observers ?st = [0]" by code_simp+
  from stop_teardown [of ?st] have 4: "markers (dom (cleanupTimestampObserver ?st)) = []" by blast
  from stop_teardown [of ?st] 3 have 5: "observers (cleanupTimestampObserver ?st) = []" by simp
  from stop_teardown [of ?st] 1
  have 6: "cleanupTimestampObserver (cleanupTimestampObserver ?st) = cleanupTimestampObserver ?st"
    by blast
  show ?thesis by (intro conjI) (rule 1 2 4 5 6)+
qed

text \<open>The document of the example after the stop: the marker is a text node again.\<close>

lemma stop_example:
  "body (dom (cleanupTimestampObserver (initTimestampObserver (stopped (one_block ''02:10 hello''))))) =
     [Element 1 (plain ''div'' [''roam-block-container''])
       [Element 2 (plain ''span'' [''rm-block-text'']) [Text 10 ''02:10'', Text 9 '' hello'']]]
   \<and> head (dom (cleanupTimestampObserver (initTimestampObserver (stopped (one_block ''02:10 hello''))))) = []"
  by code_simp

text \<open>
  Claim C4 as stated fails: a notification 10 ms after the start sets a timer due at
  110 ms; the stop leaves it pending; when it fires, the pass runs and the marker is back,
  with no observer left.
\<close>

theorem stop_keeps_timer:
  "timers (cleanupTimestampObserver (host_mutation 10 [added_node]
      (initTimestampObserver (stopped (one_block ''02:10 hello''))))) = [110]
   \<and> markers (dom (cleanupTimestampObserver (host_mutation 10 [added_node]
      (initTimestampObserver (stopped (one_block ''02:10 hello'')))))) = []
   \<and> map textContent (markers (dom (fire_timer (cleanupTimestampObserver (host_mutation 10 [added_node]
      (initTimestampObserver (stopped (one_block ''02:10 hello''))))))))  = [''02:10'']
   \<and> observers (fire_timer (cleanupTimestampObserver (host_mutation 10 [added_node]
      (initTimestampObserver (stopped (one_block ''02:10 hello'')))))) = []"
  by code_simp

section \<open>Facts about the player locator\<close>

lemma elements_trans:
  "c \<in> set (elements x) \<Longrightarrow> e \<in> set (elements c) \<Longrightarrow> e \<in> set (elements x)"
proof (induction x)
  case (Text i s)
  then show ?case by simp
next
  case (Element i a cs)
  show ?case
  proof (cases "c = Element i a cs")
    case True
    with Element.prems show ?thesis by simp
  next
    case False
    with Element.prems obtain k where "k \<in> set cs" "c \<in> set (elements k)" by auto
    with Element.IH Element.prems(2) have "e \<in> set (elements k)" by blast
    with \<open>k \<in> set cs\<close> show ?thesis by auto
  qed
qed

lemma path_to_elements: "c \<in> set (path_to n x) \<Longrightarrow> c \<in> set (elements x)"
proof (induction x arbitrary: c)
  case (Text i s)
  then show ?case by simp
next
  case (Element i a cs)
  show ?case
  proof (cases "i = n")
    case True
    with Element.prems show ?thesis by simp
  next
    case False
    show ?thesis
    proof (cases "filter (\<lambda>p. p \<noteq> []) (map (path_to n) cs)")
      case Nil
      with False Element.prems show ?thesis by simp
    next
      case (Cons p ps)
      then have "p \<in> set (filter (\<lambda>p. p \<noteq> []) (map (path_to n) cs))" by simp
      then obtain k where k: "k \<in> set cs" "p = path_to n k" by auto
      from False Cons Element.prems have "c \<in> set p \<or> c = Element i a cs" by auto
      then show ?thesis
      proof
        assume "c \<in> set p"
        with k Element.IH have "c \<in> set (elements k)" by blast
        with k show ?thesis by auto
      next
        assume "c = Element i a cs"
        then show ?thesis by simp
      qed
    qed
  qed
qed

lemma chain_in_document: "c \<in> set (ancestors_or_self n d) \<Longrightarrow> c \<in> set (all_elements d)"
proof -
  assume c: "c \<in> set (ancestors_or_self n d)"
  show ?thesis
  proof (cases "filter (\<lambda>p. p \<noteq> []) (map (path_to n) (head d @ body d))")
    case Nil
    with c show ?thesis by (simp add: ancestors_or_self_def)
  next
    case (Cons p ps)
    then have "p \<in> set (filter (\<lambda>p. p \<noteq> []) (map (path_to n) (head d @ body d)))" by simp
    then obtain k where k: "k \<in> set (head d @ body d)" "p = path_to n k" by auto
    from c Cons have "c \<in> set p" by (simp add: ancestors_or_self_def)
    with k path_to_elements have "c \<in> set (elements k)" by blast
    with k show ?thesis unfolding all_elements_def by auto
  qed
qed

lemma query_iframe_Some:
  "query_iframe c = Some e \<Longrightarrow> e \<in> set (elements c) \<and> is_youtube_iframe e"
  by (cases c) (auto dest!: find_Some_member)

lemma closest_container_subset: "set (closest_container chain) \<subseteq> set chain"
  unfolding closest_container_def by (auto dest: set_dropWhileD)

lemma player_loop_Some:
  "player_loop current = Some e \<Longrightarrow> \<exists>c \<in> set current. e \<in> set (elements c) \<and> is_youtube_iframe e"
proof (induction current rule: player_loop.induct)
  case (1 current)
  from "1.prems" obtain container outer where a: "closest_container current = container # outer"
    by (subst (asm) player_loop.simps) (auto split: list.splits)
  with "1.prems" obtain parentContainer further where b: "closest_container outer = parentContainer # further"
    by (subst (asm) player_loop.simps) (auto split: list.splits)
  have sub: "set (parentContainer # further) \<subseteq> set current"
    using closest_container_subset [of current] closest_container_subset [of outer] a b by auto
  show ?case
  proof (cases "query_iframe parentContainer")
    case None
    with "1.prems" a b have "player_loop (parentContainer # further) = Some e"
      by (subst (asm) player_loop.simps) simp
    from "1.IH" [OF a b None this] sub show ?thesis by blast
  next
    case (Some f)
    with "1.prems" a b have "f = e"
      by (subst (asm) player_loop.simps) simp
    with Some query_iframe_Some have "e \<in> set (elements parentContainer) \<and> is_youtube_iframe e" by blast
    with sub show ?thesis by auto
  qed
qed

lemma player_loop_in_document:
  assumes "player_loop (ancestors_or_self n d) = Some e"
  shows "e \<in> set (filter is_youtube_iframe (all_elements d))"
proof -
  from player_loop_Some [OF assms] obtain c where c: "c \<in> set (ancestors_or_self n d)"
    "e \<in> set (elements c)" "is_youtube_iframe e" by blast
  from chain_in_document [OF c(1)] obtain k where k: "k \<in> set (head d @ body d)" "c \<in> set (elements k)"
    unfolding all_elements_def by auto
  from elements_trans [OF k(2) c(2)] k(1) have "e \<in> set (all_elements d)"
    unfolding all_elements_def by auto
  with c(3) show ?thesis by simp
qed

lemma findYouTubePlayer_none:
  assumes "filter is_youtube_iframe (all_elements d) = []"
  shows "findYouTubePlayer d b = None"
proof (cases "player_loop (ancestors_or_self b d)")
  case None
  with assms show ?thesis by (simp add: findYouTubePlayer_def)
next
  case (Some e)
  from player_loop_in_document [OF this] assms show ?thesis by simp
qed

lemma findYouTubePlayer_member:
  assumes "findYouTubePlayer d b = Some p"
  shows "p \<in> set (filter is_youtube_iframe (all_elements d))"
proof (cases "player_loop (ancestors_or_self b d)")
  case None
  with assms obtain ps where "filter is_youtube_iframe (all_elements d) = p # ps"
    by (auto simp: findYouTubePlayer_def split: list.splits)
  then show ?thesis by simp
next
  case (Some e)
  with assms have "e = p" by (simp add: findYouTubePlayer_def)
  with player_loop_in_document [OF Some] show ?thesis by simp
qed

subsection \<open>Claim about the player locator\<close>

text \<open>
  Claim C9. \<open>findYouTubePlayer\<close> is a function of the document and the element: it returns
  a value for every input and changes nothing. When the walk over the enclosing block
  containers finds no player and the document holds exactly one YouTube iframe, the
  result is that iframe; when the document holds none, the result is \<open>None\<close>. A result is
  always a YouTube iframe of the document.
\<close>

theorem findYouTubePlayer_fallback:
  "(player_loop (ancestors_or_self b d) = None \<and> filter is_youtube_iframe (all_elements d) = [p]
      \<longrightarrow> findYouTubePlayer d b = Some p)
   \<and> (filter is_youtube_iframe (all_elements d) = [] \<longrightarrow> findYouTubePlayer d b = None)
   \<and> (findYouTubePlayer d b = Some q \<longrightarrow> q \<in> set (filter is_youtube_iframe (all_elements d)))"
  using findYouTubePlayer_none [of d b] findYouTubePlayer_member [of d b q]
  by (auto simp: findYouTubePlayer_def)

theorem findYouTubePlayer_fallback_witness:
  "player_loop (ancestors_or_self 1 lone_player) = None
   \<and> filter is_youtube_iframe (all_elements lone_player) = [youtube_iframe 5]
   \<and> findYouTubePlayer lone_player 1 = Some (youtube_iframe 5)
   \<and> filter is_youtube_iframe (all_elements (one_block ''02:10 hello'')) = []
   \<and> findYouTubePlayer (one_block ''02:10 hello'') 1 = None"
proof -
  have 1: "player_loop (ancestors_or_self 1 lone_player) = None" by code_simp
  have 2: "filter is_youtube_iframe (all_elements lone_player) = [youtube_iframe 5]" by code_simp
  have 3: "filter is_youtube_iframe (all_elements (one_block ''02:10 hello'')) = []" by code_simp
  from findYouTubePlayer_fallback [of 1 lone_player "youtube_iframe 5"] 1 2
  have 4: "findYouTubePlayer lone_player 1 = Some (youtube_iframe 5)" by blast
  from findYouTubePlayer_fallback [of 1 "one_block ''02:10 hello''"] 3
  have 5: "findYouTubePlayer (one_block ''02:10 hello'') 1 = None" by blast
  show ?thesis by (intro conjI) (rule 1 2 3 4 5)+
qed

end
